theory Spec2Isabelle
  imports Main "HOL-Library.Sublist"
begin

section \<open>The LaTeX cleanup passes of \<open>latex_cleanup.py\<close>\<close>

subsection \<open>Strings\<close>

text \<open>
  A Python \<open>str\<close> is a sequence of Unicode code points. The replacement table has keys
  beyond Latin-1 (one of them outside the Basic Multilingual Plane), so a character is
  modelled by its code point and a string by the list of its code points.
\<close>

type_synonym pychar = nat
type_synonym pystr = "pychar list"

definition asc :: "string \<Rightarrow> pystr" where
  "asc cs = map of_char cs"

text \<open>The backslash, code point 92.\<close>

definition BSL :: pychar where
  "BSL = 92"

text \<open>
  \<open>str.isspace\<close> on one code point. The regular expression class \<open>\s\<close> of a \<open>str\<close>
  pattern and \<open>str.strip()\<close> without argument both use this predicate of the Python
  runtime: the code points 9 to 13, 28 to 32, 133, 160, 5760, 8192 to 8202, 8232, 8233,
  8239, 8287 and 12288.
\<close>

definition isspace :: "pychar \<Rightarrow> bool" where
  "isspace c = ((9 \<le> c \<and> c \<le> 13) \<or> (28 \<le> c \<and> c \<le> 32) \<or> c = 133 \<or> c = 160 \<or>
     c = 5760 \<or> (8192 \<le> c \<and> c \<le> 8202) \<or> c = 8232 \<or> c = 8233 \<or> c = 8239 \<or>
     c = 8287 \<or> c = 12288)"

definition strip :: "pystr \<Rightarrow> pystr" where
  "strip s = rev (dropWhile isspace (rev (dropWhile isspace s)))"

text \<open>
  \<open>text.replace(char, replacement)\<close> and \<open>text.count(char)\<close> for a \<open>char\<close> that is a string
  of one code point, as every key of the replacement table is.
\<close>

definition str_replace :: "pychar \<Rightarrow> pystr \<Rightarrow> pystr \<Rightarrow> pystr" where
  "str_replace char replacement text =
     concat (map (\<lambda>c. if c = char then replacement else [c]) text)"

definition str_count :: "pychar \<Rightarrow> pystr \<Rightarrow> nat" where
  "str_count char text = length (filter (\<lambda>c. c = char) text)"

subsection \<open>The regular expressions of the module\<close>

text \<open>
  The four compiled patterns are sequences of three kinds of items: a literal text, a
  greedy star over a character class (\<open>\s*\<close>, \<open>[^}]*\<close>, \<open>[^\]]*\<close>) and the lazy star
  \<open>.*?\<close>, which under \<open>re.DOTALL\<close> ranges over every character. An item may be a
  capture group with a key: the name of a named group, and \<open>''1''\<close> for the group that
  \<open>match.group(1)\<close> reads.
\<close>

datatype re_item = Lit pystr | Greedy "pychar \<Rightarrow> bool" | Lazy

type_synonym pattern = "(string option \<times> re_item) list"

text \<open>
  \<open>first_some f ns\<close> is the backtracking of the matcher: the alternatives \<open>ns\<close> are tried
  in order and the first that succeeds is taken.
\<close>

fun first_some :: "(nat \<Rightarrow> 'a option) \<Rightarrow> nat list \<Rightarrow> 'a option" where
  "first_some f [] = None"
| "first_some f (n # ns) = (case f n of Some r \<Rightarrow> Some r | None \<Rightarrow> first_some f ns)"

text \<open>
  \<open>re_match its s\<close> matches the items at the start of \<open>s\<close> and returns the text each item
  consumed. A greedy star tries the longest run first and gives characters back one by
  one; a lazy star tries the empty text first and takes characters one by one.
\<close>

fun re_match :: "re_item list \<Rightarrow> pystr \<Rightarrow> pystr list option" where
  "re_match [] s = Some []"
| "re_match (Lit l # its) s =
     (if prefix l s then map_option (Cons l) (re_match its (drop (length l) s)) else None)"
| "re_match (Greedy P # its) s =
     first_some (\<lambda>n. map_option (Cons (take n s)) (re_match its (drop n s)))
       (rev [0..<Suc (length (takeWhile P s))])"
| "re_match (Lazy # its) s =
     first_some (\<lambda>n. map_option (Cons (take n s)) (re_match its (drop n s)))
       [0..<Suc (length s)]"

text \<open>A match object: the whole matched text (group 0) and the capture groups by key.\<close>

record match =
  matched :: pystr
  named :: "(string \<times> pystr) list"

fun collect_groups :: "pattern \<Rightarrow> pystr list \<Rightarrow> (string \<times> pystr) list" where
  "collect_groups ((Some k, it) # pat) (sp # sps) = (k, sp) # collect_groups pat sps"
| "collect_groups ((None, it) # pat) (sp # sps) = collect_groups pat sps"
| "collect_groups pat sps = []"

definition re_exec :: "pattern \<Rightarrow> pystr \<Rightarrow> match option" where
  "re_exec pat s =
     (case re_match (map snd pat) s of
        None \<Rightarrow> None
      | Some sps \<Rightarrow> Some \<lparr>matched = concat sps, named = collect_groups pat sps\<rparr>)"

text \<open>\<open>match.group(k)\<close> raises \<open>IndexError\<close> when the pattern has no group \<open>k\<close>.\<close>

datatype error = IndexError

definition group :: "match \<Rightarrow> string \<Rightarrow> error + pystr" where
  "group m k = (case map_of (named m) k of None \<Rightarrow> Inl IndexError | Some g \<Rightarrow> Inr g)"

text \<open>\<open>pattern.search(text) is not None\<close>: the pattern matches at some position.\<close>

fun re_search :: "pattern \<Rightarrow> pystr \<Rightarrow> bool" where
  "re_search pat [] = (re_exec pat [] \<noteq> None)"
| "re_search pat (c # cs) = (re_exec pat (c # cs) \<noteq> None \<or> re_search pat cs)"

text \<open>
  The scan of \<open>pattern.sub\<close> and \<open>pattern.subn\<close>: the text is cut, from left to right,
  into the matches that do not overlap and the characters between them. After an empty
  match the scan copies one character and goes on (Python 3.7 and later).
\<close>

datatype seg = Txt pychar | Mtch match

fun re_scan :: "pattern \<Rightarrow> pystr \<Rightarrow> seg list" where
  "re_scan pat [] = (case re_exec pat [] of None \<Rightarrow> [] | Some m \<Rightarrow> [Mtch m])"
| "re_scan pat (c # cs) =
     (case re_exec pat (c # cs) of
        None \<Rightarrow> Txt c # re_scan pat cs
      | Some m \<Rightarrow>
          (if matched m = [] then Mtch m # Txt c # re_scan pat cs
           else Mtch m # re_scan pat (drop (length (matched m)) (c # cs))))"

text \<open>
  \<open>pattern.subn(replacer, text)\<close>: every match is replaced by what the replacer returns
  for it, and the number of matches is returned with the new text. An exception of the
  replacer ends the call.
\<close>

fun subn_segs :: "(match \<Rightarrow> error + pystr) \<Rightarrow> seg list \<Rightarrow> error + (pystr \<times> nat)" where
  "subn_segs replacer [] = Inr ([], 0)"
| "subn_segs replacer (Txt c # segs) =
     (case subn_segs replacer segs of
        Inl e \<Rightarrow> Inl e
      | Inr (t, n) \<Rightarrow> Inr (c # t, n))"
| "subn_segs replacer (Mtch m # segs) =
     (case replacer m of
        Inl e \<Rightarrow> Inl e
      | Inr r \<Rightarrow>
          (case subn_segs replacer segs of
             Inl e \<Rightarrow> Inl e
           | Inr (t, n) \<Rightarrow> Inr (r @ t, Suc n)))"

definition re_subn :: "pattern \<Rightarrow> (match \<Rightarrow> error + pystr) \<Rightarrow> pystr \<Rightarrow> error + (pystr \<times> nat)" where
  "re_subn pat replacer text = subn_segs replacer (re_scan pat text)"

text \<open>
  \<open>pattern.sub(replacer, text)\<close> with a replacer that updates a variable of the enclosing
  function: the variable is passed through the calls of the replacer, from left to right.
\<close>

fun sub_segs :: "(match \<Rightarrow> 'st \<Rightarrow> error + (pystr \<times> 'st)) \<Rightarrow> seg list \<Rightarrow> 'st \<Rightarrow> error + (pystr \<times> 'st)" where
  "sub_segs replacer [] st = Inr ([], st)"
| "sub_segs replacer (Txt c # segs) st =
     (case sub_segs replacer segs st of
        Inl e \<Rightarrow> Inl e
      | Inr (t, st') \<Rightarrow> Inr (c # t, st'))"
| "sub_segs replacer (Mtch m # segs) st =
     (case replacer m st of
        Inl e \<Rightarrow> Inl e
      | Inr (r, st1) \<Rightarrow>
          (case sub_segs replacer segs st1 of
             Inl e \<Rightarrow> Inl e
           | Inr (t, st2) \<Rightarrow> Inr (r @ t, st2)))"

definition re_sub :: "pattern \<Rightarrow> (match \<Rightarrow> 'st \<Rightarrow> error + (pystr \<times> 'st)) \<Rightarrow> pystr \<Rightarrow> 'st \<Rightarrow> error + (pystr \<times> 'st)" where
  "re_sub pat replacer text st = sub_segs replacer (re_scan pat text) st"

subsection \<open>The patterns and the replacement table\<close>

definition begin_quote :: pystr where
  "begin_quote = BSL # asc ''begin{quote}''"

definition end_quote :: pystr where
  "end_quote = BSL # asc ''end{quote}''"

definition begin_longtable :: pystr where
  "begin_longtable = BSL # asc ''begin{longtable}{''"

definition end_longtable :: pystr where
  "end_longtable = BSL # asc ''end{longtable}''"

definition begin_minipage :: pystr where
  "begin_minipage = BSL # asc ''begin{minipage}[''"

definition end_minipage :: pystr where
  "end_minipage = BSL # asc ''end{minipage}''"

definition item_marker :: pystr where
  "item_marker = BSL # asc ''item''"

text \<open>The code points of \<open>}\<close> and \<open>]\<close>.\<close>

definition RBRACE :: pychar where
  "RBRACE = 125"

definition RBRACKET :: pychar where
  "RBRACKET = 93"

definition QUOTE_BLOCK_PATTERN :: pattern where
  "QUOTE_BLOCK_PATTERN =
     [(None, Lit begin_quote), (None, Greedy isspace), (Some ''1'', Lazy),
      (None, Greedy isspace), (None, Lit end_quote)]"

definition LONGTABLE_PATTERN :: pattern where
  "LONGTABLE_PATTERN =
     [(None, Lit begin_longtable), (Some ''cols'', Greedy (\<lambda>c. c \<noteq> RBRACE)),
      (None, Lit [RBRACE]), (Some ''body'', Lazy), (None, Lit end_longtable)]"

definition MINIPAGE_PATTERN :: pattern where
  "MINIPAGE_PATTERN =
     [(None, Lit begin_minipage), (None, Greedy (\<lambda>c. c \<noteq> RBRACKET)),
      (None, Lit (asc '']{'')), (None, Greedy (\<lambda>c. c \<noteq> RBRACE)),
      (None, Lit [RBRACE]), (Some ''body'', Lazy), (None, Lit end_minipage)]"

definition BIBITEM_QUOTE_PATTERN :: pattern where
  "BIBITEM_QUOTE_PATTERN =
     [(Some ''item'', Lit item_marker), (None, Greedy isspace), (None, Lit begin_quote),
      (None, Greedy isspace), (Some ''body'', Lazy), (None, Greedy isspace),
      (None, Lit end_quote)]"

text \<open>
  The table, in the order of the dictionary. The values are raw strings written with two
  backslashes, so each has two backslashes. The first key is the code point U+01AE.
\<close>

definition UNICODE_MATH_REPLACEMENTS :: "(pychar \<times> pystr) list" where
  "UNICODE_MATH_REPLACEMENTS =
     [(0x1AE, BSL # BSL # asc ''tau''),
      (0x1D4B5, BSL # BSL # asc ''mathcal{Z}''),
      (0x2124, BSL # BSL # asc ''mathbb{Z}''),
      (0x211D, BSL # BSL # asc ''mathbb{R}''),
      (0x211A, BSL # BSL # asc ''mathbb{Q}''),
      (0x2115, BSL # BSL # asc ''mathbb{N}'')]"

subsection \<open>The passes\<close>

record CleanupStats =
  removed_quote_blocks :: nat
  unicode_replacements :: nat
  simplified_longtables :: nat
  normalized_bibliography_items :: nat

definition quote_replacer :: "match \<Rightarrow> error + pystr" where
  "quote_replacer m = (case group m ''1'' of Inl e \<Rightarrow> Inl e | Inr g \<Rightarrow> Inr (strip g))"

definition remove_quote_blocks :: "pystr \<Rightarrow> error + (pystr \<times> nat)" where
  "remove_quote_blocks text = re_subn QUOTE_BLOCK_PATTERN quote_replacer text"

text \<open>The loop of \<open>normalize_unicode_math\<close> over the items of the table.\<close>

fun unicode_loop :: "(pychar \<times> pystr) list \<Rightarrow> pystr \<Rightarrow> nat \<Rightarrow> pystr \<times> nat" where
  "unicode_loop [] text count = (text, count)"
| "unicode_loop ((char, replacement) # rest) text count =
     (if char \<in> set text
      then unicode_loop rest (str_replace char replacement text) (count + str_count char text)
      else unicode_loop rest text count)"

definition normalize_unicode_math :: "pystr \<Rightarrow> error + (pystr \<times> nat)" where
  "normalize_unicode_math text = Inr (unicode_loop UNICODE_MATH_REPLACEMENTS text 0)"

definition minipage_replacer :: "match \<Rightarrow> error + pystr" where
  "minipage_replacer m = (case group m ''body'' of Inl e \<Rightarrow> Inl e | Inr g \<Rightarrow> Inr (strip g))"

definition strip_minipages :: "pystr \<Rightarrow> error + pystr" where
  "strip_minipages body =
     (case re_subn MINIPAGE_PATTERN minipage_replacer body of
        Inl e \<Rightarrow> Inl e
      | Inr (stripped, n) \<Rightarrow> Inr stripped)"

definition longtable_replacer :: "match \<Rightarrow> nat \<Rightarrow> error + (pystr \<times> nat)" where
  "longtable_replacer m simplified =
     (case group m ''cols'' of
        Inl e \<Rightarrow> Inl e
      | Inr cols \<Rightarrow>
          (case group m ''body'' of
             Inl e \<Rightarrow> Inl e
           | Inr body \<Rightarrow>
               (case strip_minipages body of
                  Inl e \<Rightarrow> Inl e
                | Inr new_body \<Rightarrow>
                    Inr (begin_longtable @ cols @ [RBRACE] @ new_body @ end_longtable,
                         if new_body \<noteq> body then simplified + 1 else simplified))))"

definition simplify_longtables :: "pystr \<Rightarrow> error + (pystr \<times> nat)" where
  "simplify_longtables text = re_sub LONGTABLE_PATTERN longtable_replacer text 0"

definition bibitem_replacer :: "match \<Rightarrow> error + pystr" where
  "bibitem_replacer m =
     (case group m ''item'' of
        Inl e \<Rightarrow> Inl e
      | Inr it \<Rightarrow>
          (case group m ''body'' of
             Inl e \<Rightarrow> Inl e
           | Inr body \<Rightarrow> Inr (it @ asc '' '' @ strip body)))"

definition normalize_bibliography_items :: "pystr \<Rightarrow> error + (pystr \<times> nat)" where
  "normalize_bibliography_items text = re_subn BIBITEM_QUOTE_PATTERN bibitem_replacer text"

definition cleanup_latex :: "pystr \<Rightarrow> error + (pystr \<times> CleanupStats)" where
  "cleanup_latex text0 =
     (case remove_quote_blocks text0 of
        Inl e \<Rightarrow> Inl e
      | Inr (text1, quote_count) \<Rightarrow>
     (case normalize_unicode_math text1 of
        Inl e \<Rightarrow> Inl e
      | Inr (text2, unicode_count) \<Rightarrow>
     (case simplify_longtables text2 of
        Inl e \<Rightarrow> Inl e
      | Inr (text3, simplified_longtable) \<Rightarrow>
     (case normalize_bibliography_items text3 of
        Inl e \<Rightarrow> Inl e
      | Inr (text4, bib_count) \<Rightarrow>
          Inr (text4,
               \<lparr>removed_quote_blocks = quote_count,
                unicode_replacements = unicode_count,
                simplified_longtables = simplified_longtable,
                normalized_bibliography_items = bib_count\<rparr>)))))"

section \<open>The vocabulary of the properties\<close>

text \<open>
  The definitions below are not code of the module. They describe matches, scans and the
  documents the claims speak about: documents with quotation wrappers that are not nested,
  with bibliography items, with long tables.
\<close>

text \<open>What a match looks like: each item consumed a text of its kind, and the texts
  consumed, one after the other, are a prefix of the input.\<close>

fun span_ok :: "re_item \<Rightarrow> pystr \<Rightarrow> bool" where
  "span_ok (Lit l) sp = (sp = l)"
| "span_ok (Greedy P) sp = list_all P sp"
| "span_ok Lazy sp = True"

text \<open>The source text of a segment; a scan cuts the text and loses nothing.\<close>

fun seg_src :: "seg \<Rightarrow> pystr" where
  "seg_src (Txt c) = [c]"
| "seg_src (Mtch m) = matched m"

text \<open>The whitespace at the start of a content, and the whitespace at its end when the
  content is not whitespace only: \<open>c = lead c @ strip c @ trail c\<close>.\<close>

definition lead :: "pystr \<Rightarrow> pystr" where
  "lead c = takeWhile isspace c"

definition trail :: "pystr \<Rightarrow> pystr" where
  "trail c = rev (takeWhile isspace (rev (dropWhile isspace c)))"

text \<open>\<open>quote_doc ws fin\<close> is the document with one wrapper for each \<open>(t, c)\<close> of \<open>ws\<close>, the
  text \<open>t\<close> before the wrapper and the content \<open>c\<close> inside it, and the text \<open>fin\<close> after the
  last wrapper. \<open>unwrapped ws fin\<close> is the same document with each wrapper replaced by its
  content without the whitespace around it.\<close>

fun quote_doc :: "(pystr \<times> pystr) list \<Rightarrow> pystr \<Rightarrow> pystr" where
  "quote_doc [] fin = fin"
| "quote_doc ((t, c) # ws) fin = t @ begin_quote @ c @ end_quote @ quote_doc ws fin"

fun unwrapped :: "(pystr \<times> pystr) list \<Rightarrow> pystr \<Rightarrow> pystr" where
  "unwrapped [] fin = fin"
| "unwrapped ((t, c) # ws) fin = t @ strip c @ unwrapped ws fin"

definition quote_free :: "pystr \<Rightarrow> bool" where
  "quote_free x = (\<not> sublist begin_quote x \<and> \<not> sublist end_quote x)"

text \<open>\<open>ends_partial m x\<close>: the text \<open>x\<close> ends with a proper, non-empty prefix of the marker
  \<open>m\<close>. \<open>pieces ws\<close> are the texts that the removal of the wrappers joins: the text before
  each wrapper and its content without the whitespace around it.\<close>

definition ends_partial :: "pystr \<Rightarrow> pystr \<Rightarrow> bool" where
  "ends_partial m x = list_ex (\<lambda>n. suffix (take n m) x) [1..<length m]"

fun pieces :: "(pystr \<times> pystr) list \<Rightarrow> pystr list" where
  "pieces [] = []"
| "pieces ((t, c) # ws) = t # strip c # pieces ws"

text \<open>The substitution the table stands for: a key is mapped to its value, every other
  character to itself. \<open>unicode_key c\<close>: the character is a key of the table.\<close>

definition unicode_subst :: "pychar \<Rightarrow> pystr" where
  "unicode_subst c = (case map_of UNICODE_MATH_REPLACEMENTS c of None \<Rightarrow> [c] | Some r \<Rightarrow> r)"

definition unicode_key :: "pychar \<Rightarrow> bool" where
  "unicode_key c = (c \<in> fst ` set UNICODE_MATH_REPLACEMENTS)"

text \<open>The number of positions of a text at which a given text starts.\<close>

fun occurrences :: "pystr \<Rightarrow> pystr \<Rightarrow> nat" where
  "occurrences m [] = (if m = [] then 1 else 0)"
| "occurrences m (c # cs) = (if prefix m (c # cs) then 1 else 0) + occurrences m cs"

text \<open>A table whose keys are distinct and occur in no value of a later entry.\<close>

fun table_ok :: "(pychar \<times> pystr) list \<Rightarrow> bool" where
  "table_ok [] = True"
| "table_ok ((k, r) # tab) = (map_of tab k = None \<and> list_all (\<lambda>c. map_of tab c = None) r \<and> table_ok tab)"

text \<open>The matches of a scan, in order.\<close>

fun seg_matches :: "seg list \<Rightarrow> match list" where
  "seg_matches [] = []"
| "seg_matches (Txt c # segs) = seg_matches segs"
| "seg_matches (Mtch m # segs) = m # seg_matches segs"

text \<open>A match of the long-table pattern whose body has a minipage wrapper.\<close>

definition has_minipage :: "match \<Rightarrow> bool" where
  "has_minipage m =
     (case map_of (named m) ''body'' of
        None \<Rightarrow> False
      | Some body \<Rightarrow> re_search MINIPAGE_PATTERN body)"

text \<open>A long-table environment with its column specification and its body, and a
  minipage wrapper with its two arguments and its content.\<close>

definition lt_env :: "pystr \<Rightarrow> pystr \<Rightarrow> pystr" where
  "lt_env cols body = begin_longtable @ cols @ [RBRACE] @ body @ end_longtable"

definition mp_env :: "pystr \<Rightarrow> pystr \<Rightarrow> pystr \<Rightarrow> pystr" where
  "mp_env pos width content =
     begin_minipage @ pos @ asc '']{'' @ width @ [RBRACE] @ content @ end_minipage"

text \<open>\<open>bib_doc ws fin\<close> is the document with, for each \<open>(t, w, c)\<close> of \<open>ws\<close>, the text
  \<open>t\<close>, a list-item marker, the whitespace \<open>w\<close> and a quotation wrapper with the content
  \<open>c\<close>, and the text \<open>fin\<close> at the end. \<open>bib_out ws fin\<close> has each item on one line, and
  \<open>as_quotes ws\<close> reads the same document as a document with quotation wrappers.\<close>

fun bib_doc :: "(pystr \<times> pystr \<times> pystr) list \<Rightarrow> pystr \<Rightarrow> pystr" where
  "bib_doc [] fin = fin"
| "bib_doc ((t, w, c) # ws) fin =
     t @ item_marker @ w @ begin_quote @ c @ end_quote @ bib_doc ws fin"

fun bib_out :: "(pystr \<times> pystr \<times> pystr) list \<Rightarrow> pystr \<Rightarrow> pystr" where
  "bib_out [] fin = fin"
| "bib_out ((t, w, c) # ws) fin = t @ item_marker @ asc '' '' @ strip c @ bib_out ws fin"

fun as_quotes :: "(pystr \<times> pystr \<times> pystr) list \<Rightarrow> (pystr \<times> pystr) list" where
  "as_quotes [] = []"
| "as_quotes ((t, w, c) # ws) = (t @ item_marker @ w, c) # as_quotes ws"

section \<open>Properties of the matcher and of the passes\<close>

subsection \<open>The backtracking search\<close>

lemma first_some_None_iff: "first_some f ns = None \<longleftrightarrow> (\<forall>n\<in>set ns. f n = None)"
  by (induction ns) (auto split: option.splits)

lemma first_some_SomeD: "first_some f ns = Some r \<Longrightarrow> \<exists>n\<in>set ns. f n = Some r"
  by (induction ns) (auto split: option.splits)

lemma first_some_hit:
  "f n = Some r \<Longrightarrow> \<forall>j\<in>set pre. f j = None \<Longrightarrow> first_some f (pre @ n # post) = Some r"
  by (induction pre) auto

lemma upt_split_at: "n \<le> L \<Longrightarrow> [0..<Suc L] = [0..<n] @ n # [Suc n..<Suc L]"
proof -
  assume n: "n \<le> L"
  then obtain d where L: "Suc L = n + d" and d: "0 < d"
    by (metis add_Suc_right le_Suc_ex zero_less_Suc)
  have "[0..<n + d] = [0..<n] @ [n..<n + d]" by (rule upt_add_eq_append) simp
  moreover have "[n..<n + d] = n # [Suc n..<n + d]" using d by (simp add: upt_conv_Cons)
  ultimately show ?thesis using L by (simp del: upt_Suc)
qed

lemma greedy_candidates: "set (rev [0..<Suc k]) = {n. n \<le> k}"
  by auto

lemma lazy_candidates: "set [0..<Suc k] = {n. n \<le> k}"
  by auto

lemma prefix_take_drop: "prefix x (drop n s) \<Longrightarrow> prefix (take n s @ x) s"
  by (metis append_take_drop_id same_prefix_prefix)

lemma take_le_takeWhile: "n \<le> length (takeWhile P s) \<Longrightarrow> list_all P (take n s)"
proof -
  assume n: "n \<le> length (takeWhile P s)"
  have "take n (takeWhile P s @ dropWhile P s) = take n (takeWhile P s)"
    using n by (simp del: takeWhile_dropWhile_id)
  then have "take n s = take n (takeWhile P s)" by simp
  then have "set (take n s) \<subseteq> set (takeWhile P s)" by (metis set_take_subset)
  then show ?thesis by (auto simp: list_all_iff dest: set_takeWhileD)
qed

lemma re_match_sound:
  "re_match its s = Some sps \<Longrightarrow> list_all2 span_ok its sps \<and> prefix (concat sps) s"
proof (induction its arbitrary: s sps)
  case Nil
  then show ?case by simp
next
  case (Cons it its)
  show ?case
  proof (cases it)
    case (Lit l)
    with Cons.prems obtain sps' where p: "prefix l s" and r: "re_match its (drop (length l) s) = Some sps'"
      and e: "sps = l # sps'"
      by (auto split: if_splits)
    from Cons.IH[OF r] have "list_all2 span_ok its sps'" "prefix (concat sps') (drop (length l) s)" by auto
    moreover from p have "take (length l) s = l" by (auto simp: prefix_def)
    ultimately show ?thesis using Lit e prefix_take_drop[of "concat sps'" "length l" s] by simp
  next
    case (Greedy P)
    with Cons.prems have "first_some (\<lambda>n. map_option (Cons (take n s)) (re_match its (drop n s)))
       (rev [0..<Suc (length (takeWhile P s))]) = Some sps"
      by (simp only: re_match.simps)
    from first_some_SomeD[OF this] obtain n where
      n: "n \<in> set (rev [0..<Suc (length (takeWhile P s))])"
      and f: "map_option (Cons (take n s)) (re_match its (drop n s)) = Some sps"
      by blast
    then obtain sps' where r: "re_match its (drop n s) = Some sps'" and e: "sps = take n s # sps'"
      by auto
    from n have "n \<le> length (takeWhile P s)" unfolding greedy_candidates by simp
    then have "list_all P (take n s)" by (rule take_le_takeWhile)
    with Cons.IH[OF r] Greedy e prefix_take_drop[of "concat sps'" n s] show ?thesis by simp
  next
    case Lazy
    with Cons.prems have "first_some (\<lambda>n. map_option (Cons (take n s)) (re_match its (drop n s)))
       [0..<Suc (length s)] = Some sps"
      by (simp only: re_match.simps)
    from first_some_SomeD[OF this] obtain n where
      f: "map_option (Cons (take n s)) (re_match its (drop n s)) = Some sps"
      by blast
    then obtain sps' where r: "re_match its (drop n s) = Some sps'" and e: "sps = take n s # sps'"
      by auto
    with Cons.IH[OF r] Lazy prefix_take_drop[of "concat sps'" n s] show ?thesis by simp
  qed
qed

lemma re_match_complete:
  "list_all2 span_ok its sps \<Longrightarrow> prefix (concat sps) s \<Longrightarrow> re_match its s \<noteq> None"
proof (induction its arbitrary: s sps)
  case Nil
  then show ?case by simp
next
  case (Cons it its)
  from Cons.prems(1) obtain sp sps' where e: "sps = sp # sps'" and ok: "span_ok it sp"
    and oks: "list_all2 span_ok its sps'"
    by (auto simp: list_all2_Cons1)
  from Cons.prems(2) e have pre: "prefix (sp @ concat sps') s" by simp
  then have sp: "take (length sp) s = sp" and rest: "prefix (concat sps') (drop (length sp) s)"
    by (auto simp: prefix_def)
  from Cons.IH[OF oks rest] obtain r where r: "re_match its (drop (length sp) s) = Some r" by auto
  from pre have len: "length sp \<le> length s" by (auto simp: prefix_def)
  show ?case
  proof (cases it)
    case (Lit l)
    with ok pre r show ?thesis by (auto simp: prefix_def)
  next
    case (Greedy P)
    with ok have "list_all P sp" by simp
    then have "takeWhile P (sp @ drop (length sp) s) = sp @ takeWhile P (drop (length sp) s)"
      by (intro takeWhile_append2) (simp add: list_all_iff)
    moreover have "sp @ drop (length sp) s = s" using sp by (metis append_take_drop_id)
    ultimately have "length sp \<le> length (takeWhile P s)" by simp
    then have "length sp \<in> set (rev [0..<Suc (length (takeWhile P s))])"
      unfolding greedy_candidates by simp
    with r have "first_some (\<lambda>n. map_option (Cons (take n s)) (re_match its (drop n s)))
       (rev [0..<Suc (length (takeWhile P s))]) \<noteq> None"
      unfolding first_some_None_iff by force
    with Greedy show ?thesis by (simp del: upt_Suc)
  next
    case Lazy
    from len have "length sp \<in> set [0..<Suc (length s)]" unfolding lazy_candidates by simp
    with r have "first_some (\<lambda>n. map_option (Cons (take n s)) (re_match its (drop n s)))
       [0..<Suc (length s)] \<noteq> None"
      unfolding first_some_None_iff by force
    with Lazy show ?thesis by (simp del: upt_Suc)
  qed
qed

lemma re_match_extend: "re_match its s \<noteq> None \<Longrightarrow> re_match its (s @ t) \<noteq> None"
proof -
  assume "re_match its s \<noteq> None"
  then obtain sps where "re_match its s = Some sps" by auto
  from re_match_sound[OF this] have "list_all2 span_ok its sps" "prefix (concat sps) (s @ t)"
    by (auto intro: prefix_prefix)
  then show ?thesis by (rule re_match_complete)
qed

subsection \<open>Deterministic steps of the matcher\<close>

lemma rev_upt_Suc: "rev [0..<Suc k] = k # rev [0..<k]"
  by simp

text \<open>A greedy star whose longest run is followed by a match of the rest keeps the run.\<close>

lemma re_match_Greedy_first:
  assumes "re_match its (dropWhile P s) = Some sps"
  shows "re_match (Greedy P # its) s = Some (takeWhile P s # sps)"
proof -
  have t: "take (length (takeWhile P s)) s = takeWhile P s"
    by (metis append_eq_conv_conj takeWhile_dropWhile_id)
  have d: "drop (length (takeWhile P s)) s = dropWhile P s"
    by (metis append_eq_conv_conj takeWhile_dropWhile_id)
  show ?thesis
    unfolding re_match.simps rev_upt_Suc using assms by (simp add: t d)
qed

text \<open>A greedy star before a literal that starts with a character outside the class: only
  the longest run can be followed by the literal.\<close>

lemma nth_takeWhile_P: "n < length (takeWhile P s) \<Longrightarrow> P (s ! n)"
  by (metis nth_mem set_takeWhileD takeWhile_nth)

lemma re_match_Greedy_Lit:
  assumes l: "l \<noteq> []" "\<not> P (hd l)"
  shows "re_match (Greedy P # Lit l # its) s =
    (if prefix l (dropWhile P s)
     then map_option (\<lambda>sps. takeWhile P s # l # sps) (re_match its (drop (length l) (dropWhile P s)))
     else None)"
proof -
  let ?k = "length (takeWhile P s)"
  let ?f = "\<lambda>n. map_option (Cons (take n s)) (re_match (Lit l # its) (drop n s))"
  have t: "take ?k s = takeWhile P s" and d: "drop ?k s = dropWhile P s"
    by (metis append_eq_conv_conj takeWhile_dropWhile_id)+
  have less: "?f n = None" if "n < ?k" for n
  proof -
    from that have "n < length s" using length_takeWhile_le[of P s] by simp
    then have "drop n s = s ! n # drop (Suc n) s" by (simp add: Cons_nth_drop_Suc)
    moreover have "P (s ! n)" using that by (rule nth_takeWhile_P)
    ultimately have "\<not> prefix l (drop n s)" using l by (cases l) auto
    then show ?thesis by simp
  qed
  then have "first_some ?f (rev [0..<?k]) = None"
    unfolding first_some_None_iff by simp
  then have "re_match (Greedy P # Lit l # its) s = ?f ?k"
    unfolding re_match.simps(3) rev_upt_Suc by (simp split: option.splits)
  then show ?thesis by (simp add: t d option.map_comp comp_def)
qed

text \<open>The lazy star stops at the first position where the rest matches.\<close>

lemma re_match_Lazy_at:
  assumes n: "n \<le> length s"
    and hit: "re_match its (drop n s) = Some sps"
    and miss: "\<And>j. j < n \<Longrightarrow> re_match its (drop j s) = None"
  shows "re_match (Lazy # its) s = Some (take n s # sps)"
proof -
  let ?f = "\<lambda>n. map_option (Cons (take n s)) (re_match its (drop n s))"
  have "first_some ?f ([0..<n] @ n # [Suc n..<Suc (length s)]) = Some (take n s # sps)"
    by (rule first_some_hit) (use hit miss in auto)
  then show ?thesis
    unfolding re_match.simps using upt_split_at[OF n] by simp
qed

subsection \<open>Matches, searches and scans\<close>

lemma re_exec_None_iff: "re_exec pat s = None \<longleftrightarrow> re_match (map snd pat) s = None"
  by (simp add: re_exec_def split: option.splits)

lemma re_exec_prefix: "re_exec pat s = Some m \<Longrightarrow> prefix (matched m) s"
  by (auto simp: re_exec_def split: option.splits dest: re_match_sound)

lemma re_exec_extend: "re_exec pat s \<noteq> None \<Longrightarrow> re_exec pat (s @ t) \<noteq> None"
  unfolding re_exec_None_iff by (rule re_match_extend)

lemma re_search_iff: "re_search pat s \<longleftrightarrow> (\<exists>i\<le>length s. re_exec pat (drop i s) \<noteq> None)"
proof (induction s)
  case Nil
  then show ?case by simp
next
  case (Cons c cs)
  have "(\<exists>i\<le>length (c # cs). re_exec pat (drop i (c # cs)) \<noteq> None) \<longleftrightarrow>
    re_exec pat (c # cs) \<noteq> None \<or> (\<exists>i\<le>length cs. re_exec pat (drop i cs) \<noteq> None)"
    (is "?L \<longleftrightarrow> ?A \<or> ?B")
  proof
    assume ?L
    then obtain i where i: "i \<le> length (c # cs)" "re_exec pat (drop i (c # cs)) \<noteq> None" by blast
    show "?A \<or> ?B"
    proof (cases i)
      case 0
      with i show ?thesis by simp
    next
      case (Suc j)
      with i have "j \<le> length cs" "re_exec pat (drop j cs) \<noteq> None" by auto
      then show ?thesis by blast
    qed
  next
    assume "?A \<or> ?B"
    then show ?L
    proof
      assume ?A
      then have "re_exec pat (drop 0 (c # cs)) \<noteq> None" by simp
      then show ?L by blast
    next
      assume ?B
      then obtain j where "j \<le> length cs" "re_exec pat (drop j cs) \<noteq> None" by blast
      then have "Suc j \<le> length (c # cs)" "re_exec pat (drop (Suc j) (c # cs)) \<noteq> None" by auto
      then show ?L by blast
    qed
  qed
  with Cons.IH show ?case by simp
qed

lemma re_scan_src: "concat (map seg_src (re_scan pat s)) = s"
proof (induction pat s rule: re_scan.induct)
  case (1 pat)
  show ?case
  proof (cases "re_exec pat []")
    case None
    then show ?thesis by simp
  next
    case (Some m)
    from re_exec_prefix[OF this] have "matched m = []" by simp
    with Some show ?thesis by simp
  qed
next
  case (2 pat c cs)
  show ?case
  proof (cases "re_exec pat (c # cs)")
    case None
    with 2 show ?thesis by simp
  next
    case (Some m)
    from re_exec_prefix[OF Some] have p: "matched m @ drop (length (matched m)) (c # cs) = c # cs"
      by (auto simp: prefix_def)
    show ?thesis
    proof (cases "matched m = []")
      case True
      with 2 Some show ?thesis by simp
    next
      case False
      with 2 Some have "concat (map seg_src (re_scan pat (drop (length (matched m)) (c # cs))))
        = drop (length (matched m)) (c # cs)" by simp
      with Some False p show ?thesis by simp
    qed
  qed
qed

text \<open>Every match of a scan is a match of the pattern at some suffix of the text.\<close>

lemma re_scan_matches:
  "Mtch m \<in> set (re_scan pat s) \<Longrightarrow> \<exists>t. suffix t s \<and> re_exec pat t = Some m"
proof (induction pat s rule: re_scan.induct)
  case (1 pat)
  then show ?case by (auto split: option.splits)
next
  case (2 pat c cs)
  show ?case
  proof (cases "re_exec pat (c # cs)")
    case None
    with 2 obtain t where "suffix t cs" "re_exec pat t = Some m" by auto
    then show ?thesis by (auto intro: suffix_ConsI)
  next
    case (Some m')
    show ?thesis
    proof (cases "m = m'")
      case True
      with Some show ?thesis by auto
    next
      case False
      show ?thesis
      proof (cases "matched m' = []")
        case True
        with 2 Some False obtain t where "suffix t cs" "re_exec pat t = Some m" by auto
        then show ?thesis by (auto intro: suffix_ConsI)
      next
        case e: False
        with 2 Some False obtain t where
          "suffix t (drop (length (matched m')) (c # cs))" "re_exec pat t = Some m" by auto
        then show ?thesis by (meson suffix_drop suffix_order.trans)
      qed
    qed
  qed
qed

lemma re_search_suffix: "suffix t s \<Longrightarrow> re_exec pat t \<noteq> None \<Longrightarrow> re_search pat s"
proof -
  assume "suffix t s" and r: "re_exec pat t \<noteq> None"
  then obtain u where "s = u @ t" by (auto simp: suffix_def)
  then have "drop (length u) s = t" "length u \<le> length s" by auto
  with r show ?thesis unfolding re_search_iff by blast
qed

text \<open>Without a match, the scan copies the text.\<close>

lemma re_scan_no_match: "\<not> re_search pat s \<Longrightarrow> re_scan pat s = map Txt s"
  by (induction s) auto

lemma re_scan_some_match: "re_search pat s \<Longrightarrow> \<exists>m. Mtch m \<in> set (re_scan pat s)"
  by (induction s) (auto split: option.splits)

lemma re_scan_skip:
  "(\<And>i. i < length t \<Longrightarrow> re_exec pat (drop i t @ rest) = None)
    \<Longrightarrow> re_scan pat (t @ rest) = map Txt t @ re_scan pat rest"
proof (induction t)
  case Nil
  then show ?case by simp
next
  case (Cons c cs)
  from Cons.prems[of 0] have "re_exec pat (c # cs @ rest) = None" by simp
  moreover have "re_scan pat (cs @ rest) = map Txt cs @ re_scan pat rest"
  proof (rule Cons.IH)
    fix i assume "i < length cs"
    with Cons.prems[of "Suc i"] show "re_exec pat (drop i cs @ rest) = None" by simp
  qed
  ultimately show ?case by simp
qed

lemma re_scan_hit:
  "re_exec pat (x @ rest) = Some m \<Longrightarrow> matched m = x \<Longrightarrow> x \<noteq> []
    \<Longrightarrow> re_scan pat (x @ rest) = Mtch m # re_scan pat rest"
  by (cases x) auto

lemma subn_segs_Txt:
  "subn_segs replacer (map Txt t @ segs) =
    (case subn_segs replacer segs of Inl e \<Rightarrow> Inl e | Inr (out, n) \<Rightarrow> Inr (t @ out, n))"
  by (induction t) (auto split: sum.splits)

lemma sub_segs_Txt:
  "sub_segs replacer (map Txt t @ segs) st =
    (case sub_segs replacer segs st of Inl e \<Rightarrow> Inl e | Inr (out, st') \<Rightarrow> Inr (t @ out, st'))"
  by (induction t) (auto split: sum.splits)

declare re_match.simps(3) [simp del]
declare re_match.simps(4) [simp del]

subsection \<open>Markers\<close>

text \<open>Every marker of the patterns is a backslash followed by characters that are not
  backslashes, so an occurrence of a marker cannot overlap the start of another.\<close>

lemma prefix_straddle:
  assumes p: "BSL \<notin> set p" and y: "y \<noteq> []" and z: "z = [] \<or> hd z = BSL"
    and pre: "prefix (BSL # p) (y @ z)"
  shows "prefix (BSL # p) y"
proof (rule ccontr)
  assume n: "\<not> prefix (BSL # p) y"
  with pre obtain us where us: "BSL # p = y @ us" and pu: "prefix us z"
    unfolding prefix_append by blast
  from n us have "us \<noteq> []" by auto
  with pu z have "z \<noteq> []" "hd us = hd z" by (auto simp: prefix_def)
  with z \<open>us \<noteq> []\<close> have "BSL \<in> set us" by (metis hd_in_set)
  moreover from y us obtain y' where "y = BSL # y'" "p = y' @ us"
    by (cases y) auto
  ultimately show False using p by simp
qed

lemma sublist_suffix: "sublist m t \<Longrightarrow> suffix t s \<Longrightarrow> sublist m s"
  by (meson sublist_order.order.trans suffix_imp_sublist)

lemma not_prefix_in_piece:
  assumes p: "BSL \<notin> set p" and free: "\<not> sublist (BSL # p) t" and i: "i < length t"
    and z: "z = [] \<or> hd z = BSL"
  shows "\<not> prefix (BSL # p) (drop i t @ z)"
proof
  assume "prefix (BSL # p) (drop i t @ z)"
  moreover from i have "drop i t \<noteq> []" by simp
  ultimately have "prefix (BSL # p) (drop i t)" using p z prefix_straddle by blast
  then have "sublist (BSL # p) (drop i t)" by (rule prefix_imp_sublist)
  then have "sublist (BSL # p) t" by (rule sublist_suffix) (rule suffix_drop)
  with free show False ..
qed

subsection \<open>Whitespace around a content\<close>

lemma lead_strip_trail: "lead c @ strip c @ trail c = c"
proof -
  have "rev (dropWhile isspace (rev x)) @ rev (takeWhile isspace (rev x)) = x" for x :: pystr
    by (metis rev_append rev_rev_ident takeWhile_dropWhile_id)
  then have "strip c @ trail c = dropWhile isspace c" by (simp add: strip_def trail_def)
  then show ?thesis by (simp add: lead_def)
qed

lemma strip_trail: "strip c @ trail c = dropWhile isspace c"
  using lead_strip_trail[of c] by (simp add: lead_def) (metis same_append_eq takeWhile_dropWhile_id)

lemma trail_space: "list_all isspace (trail c)"
  by (auto simp: trail_def list_all_iff dest: set_takeWhileD)

lemma strip_last: "strip c \<noteq> [] \<Longrightarrow> \<not> isspace (last (strip c))"
proof -
  let ?x = "dropWhile isspace (rev (dropWhile isspace c))"
  assume "strip c \<noteq> []"
  then have ne: "?x \<noteq> []" by (simp add: strip_def)
  then have "\<not> isspace (hd ?x)" by (rule hd_dropWhile)
  moreover have "last (strip c) = hd ?x" using ne by (simp add: strip_def last_rev)
  ultimately show ?thesis by simp
qed

lemma strip_hd: "strip c \<noteq> [] \<Longrightarrow> \<not> isspace (hd (strip c))"
proof -
  assume ne: "strip c \<noteq> []"
  have e: "dropWhile isspace c = strip c @ trail c" by (simp add: strip_trail)
  with ne have "hd (strip c) = hd (dropWhile isspace c)" "dropWhile isspace c \<noteq> []"
    by simp_all
  then show ?thesis by (metis hd_dropWhile)
qed

lemma dropWhile_id: "x = [] \<or> \<not> P (hd x) \<Longrightarrow> dropWhile P x = x"
  by (cases x) auto

lemma strip_idem: "strip (strip c) = strip c"
proof (cases "strip c = []")
  case True
  then show ?thesis by (simp add: strip_def[of "[]"])
next
  case False
  have "dropWhile isspace (strip c) = strip c"
    using strip_hd[OF False] by (intro dropWhile_id) simp
  moreover have "dropWhile isspace (rev (strip c)) = rev (strip c)"
    using strip_last[OF False] False by (intro dropWhile_id) (simp add: hd_rev)
  ultimately show ?thesis by (simp add: strip_def[of "strip c"])
qed

lemma not_space_BSL: "\<not> isspace BSL"
  by (simp add: isspace_def BSL_def)

lemma takeWhile_space_then_BSL:
  "list_all isspace w \<Longrightarrow> takeWhile isspace (w @ BSL # z) = w"
  by (simp add: list_all_iff not_space_BSL takeWhile_append2[of w] takeWhile_append2)

lemma dropWhile_space_then_BSL:
  "list_all isspace w \<Longrightarrow> dropWhile isspace (w @ BSL # z) = BSL # z"
  by (simp add: list_all_iff not_space_BSL dropWhile_append2)

lemma takeWhile_content: "takeWhile isspace (c @ BSL # z) = lead c"
proof (cases "list_all isspace c")
  case True
  then have "lead c = c" by (simp add: lead_def list_all_iff)
  with True show ?thesis by (simp add: takeWhile_space_then_BSL)
next
  case False
  then show ?thesis by (auto simp: lead_def list_all_iff takeWhile_append1)
qed

lemma dropWhile_content: "dropWhile isspace (c @ BSL # z) = strip c @ trail c @ BSL # z"
proof (cases "list_all isspace c")
  case True
  then have "dropWhile isspace c = []" by (simp add: list_all_iff)
  with strip_trail[of c] have "strip c @ trail c @ BSL # z = BSL # z" by simp
  with dropWhile_space_then_BSL[OF True, of z] show ?thesis by (simp only:)
next
  case False
  then obtain x where "x \<in> set c" "\<not> isspace x" by (auto simp: list_all_iff)
  then have "dropWhile isspace (c @ BSL # z) = dropWhile isspace c @ BSL # z"
    by (rule dropWhile_append1)
  then show ?thesis using strip_trail[of c] by simp
qed

subsection \<open>The end of a wrapper\<close>

text \<open>After the begin marker of a quotation wrapper: optional whitespace, the content up
  to the first end marker, optional whitespace, the end marker.\<close>

lemma re_match_space_end:
  assumes "list_all isspace w"
  shows "re_match [Greedy isspace, Lit (BSL # p)] (w @ BSL # p @ rest) = Some [w, BSL # p]"
  using assms
  by (simp add: re_match_Greedy_Lit not_space_BSL takeWhile_space_then_BSL
      dropWhile_space_then_BSL)

lemma re_match_content_end:
  assumes p: "BSL \<notin> set p" and free: "\<not> sublist (BSL # p) c"
  shows "re_match [Greedy isspace, Lazy, Greedy isspace, Lit (BSL # p)] (c @ BSL # p @ rest)
    = Some [lead c, strip c, trail c, BSL # p]"
proof -
  let ?E = "BSL # p"
  let ?s = "strip c @ trail c @ ?E @ rest"
  have miss: "re_match [Greedy isspace, Lit ?E] (drop j ?s) = None" if j: "j < length (strip c)" for j
  proof -
    let ?y = "drop j (strip c)"
    from j have ne: "?y \<noteq> []" "strip c \<noteq> []" by auto
    then have "last ?y = last (strip c)" by simp
    with strip_last[OF ne(2)] ne(1) have "\<exists>x\<in>set ?y. \<not> isspace x" by (metis last_in_set)
    then obtain x where x: "x \<in> set ?y" "\<not> isspace x" by blast
    have d: "dropWhile isspace (?y @ trail c @ ?E @ rest) = dropWhile isspace ?y @ trail c @ ?E @ rest"
      using x by (rule dropWhile_append1)
    from x have ne': "dropWhile isspace ?y \<noteq> []" by (metis dropWhile_eq_Nil_conv)
    let ?t = "dropWhile isspace ?y @ trail c"
    have "suffix ?t (strip c @ trail c)"
      by (metis suffix_drop suffix_dropWhile suffix_order.trans same_suffix_suffix)
    then have "suffix ?t c"
      by (metis lead_strip_trail suffix_appendI)
    then have "\<not> sublist ?E ?t" using free sublist_suffix by blast
    then have "\<not> prefix ?E ?t" using prefix_imp_sublist by blast
    moreover have "?t \<noteq> []" using ne' by simp
    ultimately have "\<not> prefix ?E (?t @ ?E @ rest)"
      using prefix_straddle[OF p, of ?t "?E @ rest"] by auto
    then have "\<not> prefix ?E (dropWhile isspace (drop j ?s))" using j d by simp
    then show ?thesis
      by (simp add: re_match_Greedy_Lit not_space_BSL)
  qed
  have hit: "re_match [Greedy isspace, Lit ?E] (drop (length (strip c)) ?s) = Some [trail c, ?E]"
    using re_match_space_end[OF trail_space[of c], of p rest] by simp
  have "re_match [Lazy, Greedy isspace, Lit ?E] ?s = Some (take (length (strip c)) ?s # [trail c, ?E])"
    by (rule re_match_Lazy_at) (use hit miss in auto)
  then have "re_match [Lazy, Greedy isspace, Lit ?E] (dropWhile isspace (c @ ?E @ rest))
    = Some [strip c, trail c, ?E]"
    by (simp add: dropWhile_content)
  from re_match_Greedy_first[OF this] show ?thesis
    by (simp add: takeWhile_content)
qed

text \<open>The lazy star before an end marker, as in the long-table and minipage patterns.\<close>

lemma re_match_body_end:
  assumes p: "BSL \<notin> set p" and free: "\<not> sublist (BSL # p) c"
  shows "re_match [Lazy, Lit (BSL # p)] (c @ BSL # p @ rest) = Some [c, BSL # p]"
proof -
  let ?E = "BSL # p"
  let ?s = "c @ ?E @ rest"
  have miss: "re_match [Lit ?E] (drop j ?s) = None" if j: "j < length c" for j
    using not_prefix_in_piece[OF p free j, of "?E @ rest"] j by simp
  have hit: "re_match [Lit ?E] (drop (length c) ?s) = Some [?E]" by simp
  have "re_match [Lazy, Lit ?E] ?s = Some (take (length c) ?s # [?E])"
    by (rule re_match_Lazy_at) (use hit miss in auto)
  then show ?thesis by simp
qed

subsection \<open>Literals of a pattern occur in every text it matches\<close>

lemma span_ok_Lit_mem:
  "list_all2 span_ok its sps \<Longrightarrow> Lit l \<in> set its \<Longrightarrow> l \<in> set sps"
  by (induction its sps rule: list_all2_induct) auto

lemma sublist_concat_mem: "l \<in> set sps \<Longrightarrow> sublist l (concat sps)"
  by (induction sps) (auto simp: sublist_append)

lemma re_exec_Lit_sublist:
  assumes "re_exec pat s \<noteq> None" and "Lit l \<in> snd ` set pat"
  shows "sublist l s"
proof -
  from assms(1) obtain sps where r: "re_match (map snd pat) s = Some sps"
    by (auto simp: re_exec_def split: option.splits)
  from re_match_sound[OF r] have ok: "list_all2 span_ok (map snd pat) sps"
    and pre: "prefix (concat sps) s" by auto
  from span_ok_Lit_mem[OF ok] assms(2) have "l \<in> set sps" by simp
  then have "sublist l (concat sps)" by (rule sublist_concat_mem)
  with pre show ?thesis by (meson prefix_imp_sublist sublist_order.order.trans)
qed

lemma no_Lit_no_search:
  assumes "Lit l \<in> snd ` set pat" and "\<not> sublist l s"
  shows "\<not> re_search pat s"
proof
  assume "re_search pat s"
  then obtain i where "re_exec pat (drop i s) \<noteq> None" unfolding re_search_iff by blast
  from re_exec_Lit_sublist[OF this assms(1)] have "sublist l (drop i s)" .
  then have "sublist l s" by (rule sublist_suffix) (rule suffix_drop)
  with assms(2) show False ..
qed

lemma re_subn_no_match: "\<not> re_search pat s \<Longrightarrow> re_subn pat replacer s = Inr (s, 0)"
proof -
  assume "\<not> re_search pat s"
  then have "re_scan pat s = map Txt s" by (rule re_scan_no_match)
  moreover have "subn_segs replacer (map Txt s @ []) = Inr (s, 0)"
    unfolding subn_segs_Txt by simp
  ultimately show ?thesis by (simp add: re_subn_def)
qed

lemma re_sub_no_match: "\<not> re_search pat s \<Longrightarrow> re_sub pat replacer s st = Inr (s, st)"
proof -
  assume "\<not> re_search pat s"
  then have "re_scan pat s = map Txt s" by (rule re_scan_no_match)
  moreover have "sub_segs replacer (map Txt s @ []) st = Inr (s, st)"
    unfolding sub_segs_Txt by simp
  ultimately show ?thesis by (simp add: re_sub_def)
qed

subsection \<open>The markers of the patterns\<close>

lemma marker_tails:
  "BSL \<notin> set (asc ''begin{quote}'')"
  "BSL \<notin> set (asc ''end{quote}'')"
  "BSL \<notin> set (asc ''begin{longtable}{'')"
  "BSL \<notin> set (asc ''end{longtable}'')"
  "BSL \<notin> set (asc ''begin{minipage}['')"
  "BSL \<notin> set (asc ''end{minipage}'')"
  "BSL \<notin> set (asc ''item'')"
  by (simp_all add: asc_def BSL_def)

text \<open>A pattern that starts with a marker matches nowhere inside a text without that
  marker, when the text is followed by a backslash or by nothing.\<close>

lemma no_match_in_piece:
  assumes pat: "map snd pat = Lit (BSL # p) # its" and p: "BSL \<notin> set p"
    and free: "\<not> sublist (BSL # p) t" and i: "i < length t" and z: "z = [] \<or> hd z = BSL"
  shows "re_exec pat (drop i t @ z) = None"
  using not_prefix_in_piece[OF p free i z] pat by (simp add: re_exec_None_iff)

subsection \<open>Documents with quotation wrappers that are not nested\<close>

lemma re_exec_quote_wrapper:
  assumes "\<not> sublist end_quote c"
  shows "re_exec QUOTE_BLOCK_PATTERN (begin_quote @ c @ end_quote @ rest)
    = Some \<lparr>matched = begin_quote @ c @ end_quote, named = [(''1'', strip c)]\<rparr>"
proof -
  have "re_match [Greedy isspace, Lazy, Greedy isspace, Lit end_quote] (c @ end_quote @ rest)
    = Some [lead c, strip c, trail c, end_quote]"
    using re_match_content_end[OF marker_tails(2), of c rest] assms
    by (simp add: end_quote_def)
  then show ?thesis
    by (simp add: re_exec_def QUOTE_BLOCK_PATTERN_def lead_strip_trail)
qed

lemma quote_replacer_wrapper:
  "quote_replacer \<lparr>matched = x, named = [(''1'', strip c)]\<rparr> = Inr (strip c)"
  by (simp add: quote_replacer_def group_def strip_idem)

lemma scan_quote_wrapper:
  assumes t: "\<not> sublist begin_quote t" and c: "\<not> sublist end_quote c"
  shows "re_scan QUOTE_BLOCK_PATTERN (t @ begin_quote @ c @ end_quote @ rest) =
    map Txt t @ Mtch \<lparr>matched = begin_quote @ c @ end_quote, named = [(''1'', strip c)]\<rparr>
      # re_scan QUOTE_BLOCK_PATTERN rest"
proof -
  let ?m = "\<lparr>matched = begin_quote @ c @ end_quote, named = [(''1'', strip c)]\<rparr>"
  let ?w = "begin_quote @ c @ end_quote"
  have "re_scan QUOTE_BLOCK_PATTERN (t @ ?w @ rest) = map Txt t @ re_scan QUOTE_BLOCK_PATTERN (?w @ rest)"
  proof (rule re_scan_skip)
    fix i assume i: "i < length t"
    show "re_exec QUOTE_BLOCK_PATTERN (drop i t @ ?w @ rest) = None"
      by (rule no_match_in_piece[where p = "asc ''begin{quote}''"])
        (use t i marker_tails in \<open>simp_all add: QUOTE_BLOCK_PATTERN_def begin_quote_def\<close>)
  qed
  moreover have "re_scan QUOTE_BLOCK_PATTERN (?w @ rest) = Mtch ?m # re_scan QUOTE_BLOCK_PATTERN rest"
    by (rule re_scan_hit) (use re_exec_quote_wrapper[OF c, of rest] in \<open>simp_all add: begin_quote_def\<close>)
  ultimately show ?thesis by simp
qed

lemma remove_quote_blocks_doc:
  assumes "list_all (\<lambda>(t, c). \<not> sublist begin_quote t \<and> \<not> sublist end_quote c) ws"
    and "\<not> sublist begin_quote fin"
  shows "remove_quote_blocks (quote_doc ws fin) = Inr (unwrapped ws fin, length ws)"
  using assms
proof (induction ws)
  case Nil
  have "\<not> re_search QUOTE_BLOCK_PATTERN fin"
    by (rule no_Lit_no_search[where l = begin_quote]) (use Nil in \<open>simp_all add: QUOTE_BLOCK_PATTERN_def\<close>)
  then show ?case by (simp add: remove_quote_blocks_def re_subn_no_match)
next
  case (Cons w ws)
  obtain t c where w: "w = (t, c)" by (cases w)
  with Cons.prems have t: "\<not> sublist begin_quote t" and c: "\<not> sublist end_quote c" by auto
  from Cons have IH: "subn_segs quote_replacer (re_scan QUOTE_BLOCK_PATTERN (quote_doc ws fin))
    = Inr (unwrapped ws fin, length ws)"
    by (simp add: remove_quote_blocks_def re_subn_def)
  show ?case
    unfolding remove_quote_blocks_def re_subn_def w quote_doc.simps
      scan_quote_wrapper[OF t c] subn_segs_Txt
    by (simp add: quote_replacer_wrapper IH)
qed

text \<open>The definitions a concrete run of the passes unfolds.\<close>

lemmas run_defs = cleanup_latex_def remove_quote_blocks_def normalize_unicode_math_def
  simplify_longtables_def normalize_bibliography_items_def re_subn_def re_sub_def re_exec_def
  quote_replacer_def bibitem_replacer_def longtable_replacer_def minipage_replacer_def
  strip_minipages_def group_def strip_def str_replace_def str_count_def isspace_def
  QUOTE_BLOCK_PATTERN_def LONGTABLE_PATTERN_def MINIPAGE_PATTERN_def BIBITEM_QUOTE_PATTERN_def
  UNICODE_MATH_REPLACEMENTS_def begin_quote_def end_quote_def begin_longtable_def
  end_longtable_def begin_minipage_def end_minipage_def item_marker_def RBRACE_def
  RBRACKET_def asc_def BSL_def re_match.simps(3) re_match.simps(4)

subsection \<open>Markers formed where two pieces of text are joined\<close>

lemma unwrapped_pieces: "unwrapped ws fin = concat (pieces ws) @ fin"
  by (induction ws) auto

lemma sublist_join:
  assumes "sublist m (x @ y)"
  shows "sublist m x \<or> ends_partial m x \<or> sublist m y"
proof -
  from assms consider "sublist m x" | "sublist m y"
    | m1 m2 where "m = m1 @ m2" "suffix m1 x" "prefix m2 y"
    unfolding sublist_append by blast
  then show ?thesis
  proof cases
    case 3
    show ?thesis
    proof (cases "m1 = [] \<or> m2 = []")
      case True
      with 3 show ?thesis by (auto dest: prefix_imp_sublist suffix_imp_sublist)
    next
      case False
      with 3 have "length m1 \<in> set [1..<length m]" "take (length m1) m = m1"
        by (auto simp: Suc_le_eq)
      with 3 have "ends_partial m x" unfolding ends_partial_def list_ex_iff by metis
      then show ?thesis by simp
    qed
  qed auto
qed

lemma sublist_concat_join:
  assumes "list_all (\<lambda>x. \<not> sublist m x \<and> \<not> ends_partial m x) xs" and "\<not> sublist m fin"
  shows "\<not> sublist m (concat xs @ fin)"
  using assms
proof (induction xs)
  case Nil
  then show ?case by simp
next
  case (Cons x xs)
  then have "\<not> sublist m (concat xs @ fin)" by simp
  with Cons.prems sublist_join[of m x "concat xs @ fin"] show ?case by auto
qed

lemma sublist_strip: "sublist m (strip c) \<Longrightarrow> sublist m c"
proof -
  assume "sublist m (strip c)"
  moreover have "sublist (strip c) c"
    by (metis lead_strip_trail sublist_appendI)
  ultimately show ?thesis by (rule sublist_order.order.trans)
qed

lemma pieces_free:
  "list_all (\<lambda>(t, c). \<not> sublist m t \<and> \<not> sublist m c) ws
    \<Longrightarrow> list_all (\<lambda>x. \<not> sublist m x) (pieces ws)"
  by (induction ws) (auto dest: sublist_strip)

lemma unwrapped_free:
  assumes "list_all (\<lambda>(t, c). \<not> sublist m t \<and> \<not> sublist m c) ws" and "\<not> sublist m fin"
    and "list_all (\<lambda>x. \<not> ends_partial m x) (pieces ws)"
  shows "\<not> sublist m (unwrapped ws fin)"
proof -
  from pieces_free[OF assms(1)] assms(3)
  have "list_all (\<lambda>x. \<not> sublist m x \<and> \<not> ends_partial m x) (pieces ws)"
    by (simp add: list_all_iff)
  from sublist_concat_join[OF this assms(2)] show ?thesis by (simp add: unwrapped_pieces)
qed

lemma clean_pieces_split:
  assumes "list_all (\<lambda>(t, c). quote_free t \<and> quote_free c) ws"
  shows "list_all (\<lambda>(t, c). \<not> sublist begin_quote t \<and> \<not> sublist end_quote c) ws"
    and "list_all (\<lambda>(t, c). \<not> sublist begin_quote t \<and> \<not> sublist begin_quote c) ws"
    and "list_all (\<lambda>(t, c). \<not> sublist end_quote t \<and> \<not> sublist end_quote c) ws"
  using assms by (auto simp: list_all_iff quote_free_def)

lemma no_begin_quote_fixed:
  assumes "\<not> sublist begin_quote d"
  shows "remove_quote_blocks d = Inr (d, 0)"
proof -
  have "\<not> re_search QUOTE_BLOCK_PATTERN d"
    by (rule no_Lit_no_search[where l = begin_quote]) (use assms in \<open>simp_all add: QUOTE_BLOCK_PATTERN_def\<close>)
  then show ?thesis by (simp add: remove_quote_blocks_def re_subn_no_match)
qed

text \<open>Evaluation of the predicates on concrete texts.\<close>

lemmas text_defs = quote_free_def ends_partial_def sublist_code begin_quote_def end_quote_def
  begin_longtable_def end_longtable_def begin_minipage_def end_minipage_def item_marker_def
  asc_def BSL_def RBRACE_def RBRACKET_def strip_def isspace_def suffix_to_prefix

subsection \<open>The replacement of the symbols, character by character\<close>

lemma str_replace_absent: "char \<notin> set s \<Longrightarrow> str_replace char r s = s"
  by (induction s) (auto simp: str_replace_def)

lemma str_count_absent: "char \<notin> set s \<Longrightarrow> str_count char s = 0"
  by (induction s) (auto simp: str_count_def)

lemma unicode_loop_step:
  "unicode_loop ((k, r) # rest) s n = unicode_loop rest (str_replace k r s) (n + str_count k s)"
  by (simp add: str_replace_absent str_count_absent)

text \<open>For a table with distinct keys none of which occurs in a value, replacing key after
  key is the substitution of all keys at once.\<close>

lemma subst_value:
  assumes "\<forall>c\<in>set r. map_of tab c = None"
  shows "concat (map (\<lambda>c. case map_of tab c of None \<Rightarrow> [c] | Some r \<Rightarrow> r) r) = r"
  using assms by (induction r) auto

lemma subst_after_replace:
  assumes "\<forall>c\<in>set r. map_of tab c = None" and "map_of tab k = None"
  shows "concat (map (\<lambda>c. case map_of tab c of None \<Rightarrow> [c] | Some r \<Rightarrow> r) (str_replace k r s))
    = concat (map (\<lambda>c. case map_of ((k, r) # tab) c of None \<Rightarrow> [c] | Some r \<Rightarrow> r) s)"
  using subst_value[OF assms(1)] by (induction s) (auto simp: str_replace_def)

lemma filter_value:
  assumes "\<forall>c\<in>set r. map_of tab c = None"
  shows "filter (\<lambda>c. map_of tab c \<noteq> None) r = []"
  using assms by (induction r) auto

lemma count_after_replace:
  assumes "\<forall>c\<in>set r. map_of tab c = None" and "map_of tab k = None"
  shows "str_count k s + length (filter (\<lambda>c. map_of tab c \<noteq> None) (str_replace k r s))
    = length (filter (\<lambda>c. map_of ((k, r) # tab) c \<noteq> None) s)"
  using filter_value[OF assms(1)] assms(2)
  by (induction s) (auto simp: str_replace_def str_count_def)

lemma unicode_loop_subst:
  "table_ok tab \<Longrightarrow> unicode_loop tab s n =
    (concat (map (\<lambda>c. case map_of tab c of None \<Rightarrow> [c] | Some r \<Rightarrow> r) s),
     n + length (filter (\<lambda>c. map_of tab c \<noteq> None) s))"
proof (induction tab arbitrary: s n)
  case Nil
  then show ?case by simp
next
  case (Cons kr tab)
  obtain k r where kr: "kr = (k, r)" by (cases kr)
  from Cons.prems kr have k: "map_of tab k = None" and r: "\<forall>c\<in>set r. map_of tab c = None"
    and ok: "table_ok tab" by (auto simp: list_all_iff)
  show ?case
    unfolding kr unicode_loop_step Cons.IH[OF ok]
    using subst_after_replace[OF r k, of s] count_after_replace[OF r k, of s]
    by (simp add: add.assoc)
qed

lemma table_ok_unicode: "table_ok UNICODE_MATH_REPLACEMENTS"
  by (simp add: UNICODE_MATH_REPLACEMENTS_def asc_def BSL_def)

lemma unicode_key_map_of: "unicode_key c \<longleftrightarrow> map_of UNICODE_MATH_REPLACEMENTS c \<noteq> None"
  by (simp add: unicode_key_def map_of_eq_None_iff)

lemma normalize_unicode_math_subst:
  "normalize_unicode_math s =
    Inr (concat (map unicode_subst s), length (filter unicode_key s))"
proof -
  have "(\<lambda>c. case map_of UNICODE_MATH_REPLACEMENTS c of None \<Rightarrow> [c] | Some r \<Rightarrow> r) = unicode_subst"
    by (rule ext) (simp add: unicode_subst_def)
  moreover have "(\<lambda>c. map_of UNICODE_MATH_REPLACEMENTS c \<noteq> None) = unicode_key"
    by (rule ext) (simp only: unicode_key_map_of)
  ultimately show ?thesis
    unfolding normalize_unicode_math_def unicode_loop_subst[OF table_ok_unicode]
    by (simp only: add_0)
qed

lemma unicode_key_cases:
  "unicode_key d \<longleftrightarrow> d = 0x1AE \<or> d = 0x1D4B5 \<or> d = 0x2124 \<or> d = 0x211D \<or> d = 0x211A \<or> d = 0x2115"
  by (auto simp: unicode_key_def UNICODE_MATH_REPLACEMENTS_def)

lemma unicode_subst_other: "\<not> unicode_key d \<Longrightarrow> unicode_subst d = [d]"
  by (simp add: unicode_key_map_of unicode_subst_def)

lemma unicode_subst_key: "unicode_key d \<Longrightarrow> \<exists>b. unicode_subst d = BSL # BSL # b"
  by (auto simp: unicode_key_cases unicode_subst_def UNICODE_MATH_REPLACEMENTS_def)

lemma not_key_BSL: "\<not> unicode_key BSL"
  by (simp add: unicode_key_cases BSL_def)

lemma unicode_subst_no_key: "c \<in> set (unicode_subst d) \<Longrightarrow> \<not> unicode_key c"
  by (cases "unicode_key d")
    (auto simp: unicode_subst_other unicode_key_cases unicode_subst_def
      UNICODE_MATH_REPLACEMENTS_def asc_def BSL_def)

lemma subst_no_key: "c \<in> set (concat (map unicode_subst s)) \<Longrightarrow> \<not> unicode_key c"
  by (auto dest: unicode_subst_no_key)

text \<open>A text without backslash and without key starts the new text where it starts the
  old one; so does such a text after one backslash.\<close>

lemma prefix_subst_plain:
  assumes "\<forall>c\<in>set p. c \<noteq> BSL \<and> \<not> unicode_key c"
  shows "prefix p (concat (map unicode_subst s)) \<longleftrightarrow> prefix p s"
  using assms
proof (induction p arbitrary: s)
  case Nil
  then show ?case by simp
next
  case (Cons x xs)
  show ?case
  proof (cases s)
    case Nil
    then show ?thesis by simp
  next
    case (Cons d ds)
    show ?thesis
    proof (cases "unicode_key d")
      case True
      from unicode_subst_key[OF True] obtain b where "unicode_subst d = BSL # BSL # b" ..
      moreover from True Cons.prems have "x \<noteq> d" "x \<noteq> BSL" by auto
      ultimately show ?thesis using Cons by simp
    next
      case False
      with Cons.IH[of ds] Cons.prems Cons show ?thesis by (simp add: unicode_subst_other)
    qed
  qed
qed

lemma prefix_subst_marker:
  assumes "\<forall>c\<in>set p. c \<noteq> BSL \<and> \<not> unicode_key c" and "p \<noteq> []"
  shows "prefix (BSL # p) (concat (map unicode_subst s)) \<longleftrightarrow> prefix (BSL # p) s"
proof (cases s)
  case Nil
  then show ?thesis by simp
next
  case (Cons d ds)
  show ?thesis
  proof (cases "unicode_key d")
    case True
    from unicode_subst_key[OF True] obtain b where "unicode_subst d = BSL # BSL # b" ..
    moreover from True not_key_BSL have "d \<noteq> BSL" by auto
    moreover from assms have "\<not> prefix p (BSL # x)" for x by (cases p) auto
    ultimately show ?thesis using Cons by simp
  next
    case False
    with prefix_subst_plain[OF assms(1), of ds] Cons show ?thesis
      by (simp add: unicode_subst_other)
  qed
qed

text \<open>The substitution puts no marker into a text.\<close>

lemma sublist_subst_marker:
  assumes "\<forall>c\<in>set p. c \<noteq> BSL \<and> \<not> unicode_key c" and "p \<noteq> []"
    and "\<And>d x. unicode_key d \<Longrightarrow> sublist (BSL # p) (unicode_subst d @ x) \<Longrightarrow> sublist (BSL # p) x"
    and "sublist (BSL # p) (concat (map unicode_subst s))"
  shows "sublist (BSL # p) s"
  using assms(4)
proof (induction s)
  case Nil
  then show ?case by simp
next
  case (Cons d ds)
  show ?case
  proof (cases "unicode_key d")
    case True
    with Cons.prems assms(3)[of d "concat (map unicode_subst ds)"]
    have "sublist (BSL # p) (concat (map unicode_subst ds))" by simp
    with Cons.IH show ?thesis by (simp add: sublist_Cons_right)
  next
    case False
    from Cons.prems False have "prefix (BSL # p) (concat (map unicode_subst (d # ds)))
      \<or> sublist (BSL # p) (concat (map unicode_subst ds))"
      by (simp add: unicode_subst_other sublist_Cons_right)
    with prefix_subst_marker[OF assms(1,2), of "d # ds"] Cons.IH show ?thesis
      by (auto simp: sublist_Cons_right)
  qed
qed

lemma occurrences_inside:
  assumes "BSL \<notin> set q"
  shows "occurrences (BSL # p) (q @ x) = occurrences (BSL # p) x"
  using assms by (induction q) auto

lemma occurrences_after_value:
  assumes "BSL \<notin> set q" and "q \<noteq> []"
  shows "occurrences (BSL # BSL # p) (BSL # BSL # q @ x) =
    (if prefix p (q @ x) then 1 else 0) + occurrences (BSL # BSL # p) x"
proof -
  from assms obtain c q' where "q = c # q'" "c \<noteq> BSL" by (cases q) auto
  then have "\<not> prefix (BSL # BSL # p) (BSL # q @ x)" by simp
  with occurrences_inside[OF assms(1), of "BSL # p" x] show ?thesis by simp
qed

lemma value_prefixes:
  "list_all (\<lambda>(k, r). list_all (\<lambda>(d, v). \<forall>x. prefix (drop 2 r) (drop 2 v @ x) = (d = k))
      UNICODE_MATH_REPLACEMENTS) UNICODE_MATH_REPLACEMENTS"
  by (simp add: UNICODE_MATH_REPLACEMENTS_def asc_def BSL_def)

lemma subst_in_table: "unicode_key d \<Longrightarrow> (d, unicode_subst d) \<in> set UNICODE_MATH_REPLACEMENTS"
  by (auto simp: unicode_key_cases unicode_subst_def UNICODE_MATH_REPLACEMENTS_def)

lemma value_shape:
  assumes "(k, r) \<in> set UNICODE_MATH_REPLACEMENTS"
  shows "unicode_key k \<and> (\<exists>p. r = BSL # BSL # p \<and> p \<noteq> [] \<and> (\<forall>c\<in>set p. c \<noteq> BSL \<and> \<not> unicode_key c))"
  using assms
  by (auto simp: unicode_key_cases UNICODE_MATH_REPLACEMENTS_def asc_def BSL_def)

lemma occurrences_value:
  assumes "unicode_key d" and kr: "(k, r) \<in> set UNICODE_MATH_REPLACEMENTS"
  shows "occurrences r (unicode_subst d @ x) = (if d = k then 1 else 0) + occurrences r x"
proof -
  from value_shape[OF kr] obtain p where r: "r = BSL # BSL # p" by blast
  have dv: "(d, unicode_subst d) \<in> set UNICODE_MATH_REPLACEMENTS"
    using assms(1) by (rule subst_in_table)
  from value_shape[OF dv] obtain q where v: "unicode_subst d = BSL # BSL # q"
    and q: "q \<noteq> []" "\<forall>c\<in>set q. c \<noteq> BSL \<and> \<not> unicode_key c" by blast
  from value_prefixes kr dv have "prefix (drop 2 r) (drop 2 (unicode_subst d) @ x) = (d = k)"
    unfolding list_all_iff by fast
  then have "prefix p (q @ x) = (d = k)" by (simp add: r v)
  moreover have "BSL \<notin> set q" using q by auto
  ultimately show ?thesis
    using occurrences_after_value[of q p x] q(1) by (simp add: r v)
qed

lemma occurrences_subst:
  assumes kr: "(k, r) \<in> set UNICODE_MATH_REPLACEMENTS"
  shows "occurrences r (concat (map unicode_subst s)) = occurrences r s + str_count k s"
proof (induction s)
  case Nil
  from value_shape[OF kr] show ?case by (auto simp: str_count_def)
next
  case (Cons d ds)
  from value_shape[OF kr] obtain p where k: "unicode_key k" and r: "r = BSL # BSL # p"
    and p: "p \<noteq> []" "\<forall>c\<in>set p. c \<noteq> BSL \<and> \<not> unicode_key c" by blast
  show ?case
  proof (cases "unicode_key d")
    case True
    with not_key_BSL have "d \<noteq> BSL" by auto
    then have "\<not> prefix r (d # ds)" by (simp add: r)
    moreover have "str_count k (d # ds) = (if d = k then 1 else 0) + str_count k ds"
      by (simp add: str_count_def)
    ultimately show ?thesis
      using occurrences_value[OF True kr, of "concat (map unicode_subst ds)"] Cons.IH by simp
  next
    case False
    with k have "d \<noteq> k" by auto
    then have c: "str_count k (d # ds) = str_count k ds" by (simp add: str_count_def)
    have "prefix r (d # concat (map unicode_subst ds)) \<longleftrightarrow> prefix r (d # ds)"
      using prefix_subst_marker[OF p(2,1), of ds] by (simp add: r)
    with False c Cons.IH show ?thesis by (simp add: unicode_subst_other)
  qed
qed

lemma key_count_sum:
  "length (filter unicode_key s) = sum_list (map (\<lambda>(k, r). str_count k s) UNICODE_MATH_REPLACEMENTS)"
  by (induction s) (auto simp: unicode_key_cases UNICODE_MATH_REPLACEMENTS_def str_count_def)

lemma str_count_zero: "k \<notin> set s \<Longrightarrow> str_count k s = 0"
  by (auto simp: str_count_def filter_empty_conv)

subsection \<open>The shape of the matches of each pattern\<close>

lemma re_exec_quote_shape:
  assumes "re_exec QUOTE_BLOCK_PATTERN t = Some m"
  shows "\<exists>w1 g w2. m = \<lparr>matched = begin_quote @ w1 @ g @ w2 @ end_quote, named = [(''1'', g)]\<rparr>"
proof -
  from assms obtain sps where r: "re_match (map snd QUOTE_BLOCK_PATTERN) t = Some sps"
    and m: "m = \<lparr>matched = concat sps, named = collect_groups QUOTE_BLOCK_PATTERN sps\<rparr>"
    by (auto simp: re_exec_def split: option.splits)
  from re_match_sound[OF r] have "list_all2 span_ok (map snd QUOTE_BLOCK_PATTERN) sps" ..
  then obtain w1 g w2 where "sps = [begin_quote, w1, g, w2, end_quote]"
    by (auto simp: QUOTE_BLOCK_PATTERN_def list_all2_Cons1)
  with m show ?thesis
    by (intro exI[of _ w1] exI[of _ g] exI[of _ w2]) (simp add: QUOTE_BLOCK_PATTERN_def)
qed

lemma re_exec_bibitem_shape:
  assumes "re_exec BIBITEM_QUOTE_PATTERN t = Some m"
  shows "\<exists>w0 w1 g w2. m = \<lparr>matched = item_marker @ w0 @ begin_quote @ w1 @ g @ w2 @ end_quote,
    named = [(''item'', item_marker), (''body'', g)]\<rparr>"
proof -
  from assms obtain sps where r: "re_match (map snd BIBITEM_QUOTE_PATTERN) t = Some sps"
    and m: "m = \<lparr>matched = concat sps, named = collect_groups BIBITEM_QUOTE_PATTERN sps\<rparr>"
    by (auto simp: re_exec_def split: option.splits)
  from re_match_sound[OF r] have "list_all2 span_ok (map snd BIBITEM_QUOTE_PATTERN) sps" ..
  then obtain w0 w1 g w2 where "sps = [item_marker, w0, begin_quote, w1, g, w2, end_quote]"
    by (auto simp: BIBITEM_QUOTE_PATTERN_def list_all2_Cons1)
  with m show ?thesis
    by (intro exI[of _ w0] exI[of _ w1] exI[of _ g] exI[of _ w2]) (simp add: BIBITEM_QUOTE_PATTERN_def)
qed

lemma re_exec_longtable_shape:
  assumes "re_exec LONGTABLE_PATTERN t = Some m"
  shows "\<exists>cols body. m = \<lparr>matched = begin_longtable @ cols @ [RBRACE] @ body @ end_longtable,
    named = [(''cols'', cols), (''body'', body)]\<rparr>"
proof -
  from assms obtain sps where r: "re_match (map snd LONGTABLE_PATTERN) t = Some sps"
    and m: "m = \<lparr>matched = concat sps, named = collect_groups LONGTABLE_PATTERN sps\<rparr>"
    by (auto simp: re_exec_def split: option.splits)
  from re_match_sound[OF r] have "list_all2 span_ok (map snd LONGTABLE_PATTERN) sps" ..
  then obtain cols body where "sps = [begin_longtable, cols, [RBRACE], body, end_longtable]"
    by (auto simp: LONGTABLE_PATTERN_def list_all2_Cons1)
  with m show ?thesis
    by (intro exI[of _ cols] exI[of _ body]) (simp add: LONGTABLE_PATTERN_def)
qed

lemma re_exec_minipage_shape:
  assumes "re_exec MINIPAGE_PATTERN t = Some m"
  shows "\<exists>pos width body. m = \<lparr>matched = begin_minipage @ pos @ asc '']{'' @ width @ [RBRACE] @ body @ end_minipage,
    named = [(''body'', body)]\<rparr>"
proof -
  from assms obtain sps where r: "re_match (map snd MINIPAGE_PATTERN) t = Some sps"
    and m: "m = \<lparr>matched = concat sps, named = collect_groups MINIPAGE_PATTERN sps\<rparr>"
    by (auto simp: re_exec_def split: option.splits)
  from re_match_sound[OF r] have "list_all2 span_ok (map snd MINIPAGE_PATTERN) sps" ..
  then obtain pos width body where
    "sps = [begin_minipage, pos, asc '']{'', width, [RBRACE], body, end_minipage]"
    by (auto simp: MINIPAGE_PATTERN_def list_all2_Cons1)
  with m show ?thesis
    by (intro exI[of _ pos] exI[of _ width] exI[of _ body]) (simp add: MINIPAGE_PATTERN_def)
qed

subsection \<open>Substitutions that cannot fail\<close>

lemma seg_matches_set: "m \<in> set (seg_matches segs) \<longleftrightarrow> Mtch m \<in> set segs"
  by (induction segs rule: seg_matches.induct) auto

lemma subn_segs_total:
  assumes "\<And>m. Mtch m \<in> set segs \<Longrightarrow> \<exists>r. replacer m = Inr r"
  shows "\<exists>out. subn_segs replacer segs = Inr (out, length (seg_matches segs))"
  using assms
proof (induction segs rule: seg_matches.induct)
  case 1
  then show ?case by simp
next
  case (2 c segs)
  then obtain out where "subn_segs replacer segs = Inr (out, length (seg_matches segs))"
    by auto
  then show ?case by simp
next
  case (3 m segs)
  then obtain out where "subn_segs replacer segs = Inr (out, length (seg_matches segs))"
    by auto
  moreover from 3(2)[of m] obtain r where "replacer m = Inr r" by auto
  ultimately show ?case by simp
qed

lemma subn_segs_count:
  "subn_segs replacer segs = Inr (out, n) \<Longrightarrow> n = length (seg_matches segs)"
  by (induction segs arbitrary: out n rule: seg_matches.induct) (auto split: sum.splits)

lemma subn_segs_zero:
  "subn_segs replacer segs = Inr (out, 0) \<Longrightarrow> out = concat (map seg_src segs)"
  by (induction segs arbitrary: out rule: seg_matches.induct) (auto split: sum.splits)

lemma re_subn_zero: "re_subn pat replacer s = Inr (out, 0) \<Longrightarrow> out = s"
  by (auto simp: re_subn_def re_scan_src dest: subn_segs_zero)

lemma quote_replacer_total:
  "re_exec QUOTE_BLOCK_PATTERN t = Some m \<Longrightarrow> \<exists>r. quote_replacer m = Inr r"
  by (auto dest!: re_exec_quote_shape simp: quote_replacer_def group_def)

lemma bibitem_replacer_total:
  "re_exec BIBITEM_QUOTE_PATTERN t = Some m \<Longrightarrow> \<exists>r. bibitem_replacer m = Inr r"
  by (auto dest!: re_exec_bibitem_shape simp: bibitem_replacer_def group_def)

lemma minipage_replacer_shape:
  "minipage_replacer \<lparr>matched = x, named = [(''body'', body)]\<rparr> = Inr (strip body)"
  by (simp add: minipage_replacer_def group_def)

lemma minipage_replacer_total:
  "re_exec MINIPAGE_PATTERN t = Some m \<Longrightarrow> \<exists>r. minipage_replacer m = Inr r"
  by (auto dest!: re_exec_minipage_shape simp: minipage_replacer_shape)

lemma re_subn_total:
  assumes "\<And>t m. re_exec pat t = Some m \<Longrightarrow> \<exists>r. replacer m = Inr r"
  shows "\<exists>out. re_subn pat replacer s = Inr (out, length (seg_matches (re_scan pat s)))"
  unfolding re_subn_def
proof (rule subn_segs_total)
  fix m assume "Mtch m \<in> set (re_scan pat s)"
  from re_scan_matches[OF this] obtain t where "re_exec pat t = Some m" by blast
  then show "\<exists>r. replacer m = Inr r" by (rule assms)
qed

lemma remove_quote_blocks_total: "\<exists>d n. remove_quote_blocks s = Inr (d, n)"
  unfolding remove_quote_blocks_def
  using re_subn_total[of QUOTE_BLOCK_PATTERN quote_replacer s] quote_replacer_total by blast

lemma normalize_bibliography_items_total: "\<exists>d n. normalize_bibliography_items s = Inr (d, n)"
  unfolding normalize_bibliography_items_def
  using re_subn_total[of BIBITEM_QUOTE_PATTERN bibitem_replacer s] bibitem_replacer_total by blast

lemma strip_minipages_total:
  "\<exists>b. strip_minipages body = Inr b"
  unfolding strip_minipages_def
  using re_subn_total[of MINIPAGE_PATTERN minipage_replacer body] minipage_replacer_total
  by (metis (mono_tags, lifting) old.sum.simps(6) case_prod_conv)

subsection \<open>Removing the minipage wrappers of a body\<close>

lemma length_strip: "length (strip c) \<le> length c"
proof -
  have "length (lead c @ strip c @ trail c) = length c" by (simp only: lead_strip_trail)
  then show ?thesis by simp
qed

lemma subn_segs_length:
  assumes "\<And>m r. Mtch m \<in> set segs \<Longrightarrow> replacer m = Inr r \<Longrightarrow> length r < length (matched m)"
    and "subn_segs replacer segs = Inr (out, n)"
  shows "length out + n \<le> length (concat (map seg_src segs))"
  using assms
proof (induction segs arbitrary: out n rule: seg_matches.induct)
  case 1
  then show ?case by simp
next
  case (2 c segs)
  from 2(3) obtain out' where "subn_segs replacer segs = Inr (out', n)" "out = c # out'"
    by (auto split: sum.splits)
  with 2(1)[of out' n] 2(2) show ?case by simp
next
  case (3 m segs)
  from 3(3) obtain r out' n' where r: "replacer m = Inr r"
    and s: "subn_segs replacer segs = Inr (out', n')" and e: "out = r @ out'" "n = Suc n'"
    by (auto split: sum.splits)
  from 3(2)[of m r] r have "length r < length (matched m)" by simp
  moreover from 3(1)[of out' n'] 3(2) s have "length out' + n' \<le> length (concat (map seg_src segs))"
    by simp
  ultimately show ?case using e by simp
qed

lemma strip_minipages_id: "\<not> re_search MINIPAGE_PATTERN body \<Longrightarrow> strip_minipages body = Inr body"
  by (simp add: strip_minipages_def re_subn_no_match)

lemma strip_minipages_shorter:
  assumes "re_search MINIPAGE_PATTERN body" and "strip_minipages body = Inr b"
  shows "length b < length body"
proof -
  let ?segs = "re_scan MINIPAGE_PATTERN body"
  from assms(2) obtain n where run: "subn_segs minipage_replacer ?segs = Inr (b, n)"
    by (auto simp: strip_minipages_def re_subn_def split: sum.splits)
  have "length r < length (matched m)" if "Mtch m \<in> set ?segs" "minipage_replacer m = Inr r" for m r
  proof -
    from re_scan_matches[OF that(1)] obtain t where "re_exec MINIPAGE_PATTERN t = Some m" by blast
    from re_exec_minipage_shape[OF this] obtain pos width c where
      m: "m = \<lparr>matched = begin_minipage @ pos @ asc '']{'' @ width @ [RBRACE] @ c @ end_minipage,
        named = [(''body'', c)]\<rparr>" by blast
    with that(2) have "r = strip c" by (simp add: minipage_replacer_shape)
    with length_strip[of c] show ?thesis by (simp add: m begin_minipage_def)
  qed
  from subn_segs_length[OF this run] have "length b + n \<le> length body"
    by (simp add: re_scan_src)
  moreover from re_scan_some_match[OF assms(1)] have "seg_matches ?segs \<noteq> []"
    by (auto simp flip: seg_matches_set)
  with subn_segs_count[OF run] have "0 < n" by simp
  ultimately show ?thesis by simp
qed

lemma strip_minipages_changed:
  assumes "strip_minipages body = Inr b"
  shows "b \<noteq> body \<longleftrightarrow> re_search MINIPAGE_PATTERN body"
  using assms strip_minipages_shorter[of body b] strip_minipages_id[of body] by auto

subsection \<open>The replacer of the long tables\<close>

lemma longtable_replacer_shape:
  assumes "strip_minipages body = Inr b"
  shows "longtable_replacer \<lparr>matched = x, named = [(''cols'', cols), (''body'', body)]\<rparr> n =
    Inr (begin_longtable @ cols @ [RBRACE] @ b @ end_longtable,
         if re_search MINIPAGE_PATTERN body then n + 1 else n)"
  using assms strip_minipages_changed[OF assms]
  by (simp add: longtable_replacer_def group_def)

lemma longtable_replacer_match:
  assumes "re_exec LONGTABLE_PATTERN t = Some m"
  shows "\<exists>r. longtable_replacer m n = Inr (r, if has_minipage m then n + 1 else n)
    \<and> (\<not> has_minipage m \<longrightarrow> r = matched m)"
proof -
  from re_exec_longtable_shape[OF assms] obtain cols body where
    m: "m = \<lparr>matched = begin_longtable @ cols @ [RBRACE] @ body @ end_longtable,
      named = [(''cols'', cols), (''body'', body)]\<rparr>" by blast
  from strip_minipages_total obtain b where b: "strip_minipages body = Inr b" by blast
  have h: "has_minipage m = re_search MINIPAGE_PATTERN body" by (simp add: m has_minipage_def)
  from strip_minipages_changed[OF b] have "\<not> re_search MINIPAGE_PATTERN body \<Longrightarrow> b = body" by auto
  with longtable_replacer_shape[OF b, of _ cols n] h show ?thesis by (auto simp: m)
qed

lemma sub_segs_longtable:
  assumes "\<And>m. Mtch m \<in> set segs \<Longrightarrow> \<exists>t. re_exec LONGTABLE_PATTERN t = Some m"
  shows "\<exists>out. sub_segs longtable_replacer segs n
      = Inr (out, n + length (filter has_minipage (seg_matches segs)))
    \<and> (filter has_minipage (seg_matches segs) = [] \<longrightarrow> out = concat (map seg_src segs))"
  using assms
proof (induction segs arbitrary: n rule: seg_matches.induct)
  case 1
  then show ?case by simp
next
  case (2 c segs)
  from 2(1)[of n] 2(2) obtain out where
    "sub_segs longtable_replacer segs n = Inr (out, n + length (filter has_minipage (seg_matches segs)))"
    "filter has_minipage (seg_matches segs) = [] \<longrightarrow> out = concat (map seg_src segs)"
    by auto
  then show ?case by simp
next
  case (3 m segs)
  from 3(2)[of m] obtain t where "re_exec LONGTABLE_PATTERN t = Some m" by auto
  from longtable_replacer_match[OF this, of n] obtain r where
    r: "longtable_replacer m n = Inr (r, if has_minipage m then n + 1 else n)"
    and keep: "\<not> has_minipage m \<longrightarrow> r = matched m" by blast
  let ?n1 = "if has_minipage m then n + 1 else n"
  from 3(1)[of ?n1] 3(2) obtain out where
    o: "sub_segs longtable_replacer segs ?n1 = Inr (out, ?n1 + length (filter has_minipage (seg_matches segs)))"
    "filter has_minipage (seg_matches segs) = [] \<longrightarrow> out = concat (map seg_src segs)"
    by auto
  show ?case
  proof (cases "has_minipage m")
    case True
    with r o show ?thesis by simp
  next
    case False
    with r o keep show ?thesis by simp
  qed
qed

lemma simplify_longtables_count:
  "\<exists>out. simplify_longtables s
      = Inr (out, length (filter has_minipage (seg_matches (re_scan LONGTABLE_PATTERN s))))
    \<and> (filter has_minipage (seg_matches (re_scan LONGTABLE_PATTERN s)) = [] \<longrightarrow> out = s)"
proof -
  have "\<exists>t. re_exec LONGTABLE_PATTERN t = Some m" if "Mtch m \<in> set (re_scan LONGTABLE_PATTERN s)" for m
    using re_scan_matches[OF that] by blast
  from sub_segs_longtable[OF this, of "re_scan LONGTABLE_PATTERN s" 0]
  show ?thesis by (simp add: simplify_longtables_def re_sub_def re_scan_src)
qed

lemma simplify_longtables_total: "\<exists>d n. simplify_longtables s = Inr (d, n)"
  using simplify_longtables_count[of s] by blast

lemma simplify_longtables_zero: "simplify_longtables s = Inr (d, 0) \<Longrightarrow> d = s"
  using simplify_longtables_count[of s] by auto

text \<open>A body without minipage wrapper anywhere in the text.\<close>

lemma re_search_sublist:
  assumes "re_search pat b" and "sublist b s"
  shows "re_search pat s"
proof -
  from assms(1) obtain i where i: "i \<le> length b" "re_exec pat (drop i b) \<noteq> None"
    unfolding re_search_iff by blast
  from assms(2) obtain x y where s: "s = x @ b @ y" by (auto simp: sublist_def)
  from re_exec_extend[OF i(2), of y] have "re_exec pat (drop i b @ y) \<noteq> None" .
  moreover have "suffix (drop i b @ y) s"
    unfolding s by (metis append.assoc append_take_drop_id suffixI)
  ultimately show ?thesis by (rule re_search_suffix[rotated])
qed

lemma no_minipage_no_change:
  assumes "\<not> re_search MINIPAGE_PATTERN s"
  shows "filter has_minipage (seg_matches (re_scan LONGTABLE_PATTERN s)) = []"
proof -
  have "\<not> has_minipage m" if "Mtch m \<in> set (re_scan LONGTABLE_PATTERN s)" for m
  proof
    assume h: "has_minipage m"
    from re_scan_matches[OF that] obtain t where t: "suffix t s" "re_exec LONGTABLE_PATTERN t = Some m"
      by blast
    from re_exec_longtable_shape[OF t(2)] obtain cols body where
      m: "m = \<lparr>matched = begin_longtable @ cols @ [RBRACE] @ body @ end_longtable,
        named = [(''cols'', cols), (''body'', body)]\<rparr>" by blast
    from h have "re_search MINIPAGE_PATTERN body" by (simp add: m has_minipage_def)
    moreover have "matched m = (begin_longtable @ cols @ [RBRACE]) @ body @ end_longtable"
      by (simp add: m)
    then have "sublist body (matched m)" by (simp only: sublist_appendI)
    moreover from re_exec_prefix[OF t(2)] t(1) have "sublist (matched m) s"
      by (meson prefix_imp_sublist suffix_imp_sublist sublist_order.order.trans)
    ultimately have "re_search MINIPAGE_PATTERN s"
      by (meson re_search_sublist sublist_order.order.trans)
    with assms show False ..
  qed
  then show ?thesis by (auto simp: filter_empty_conv seg_matches_set)
qed

lemma simplify_longtables_no_minipage:
  "\<not> re_search MINIPAGE_PATTERN s \<Longrightarrow> simplify_longtables s = Inr (s, 0)"
  using simplify_longtables_count[of s] no_minipage_no_change[of s] by auto

lemma simplify_longtables_no_match:
  "\<not> re_search LONGTABLE_PATTERN s \<Longrightarrow> simplify_longtables s = Inr (s, 0)"
  by (simp add: simplify_longtables_def re_sub_no_match)

lemma subst_id: "\<not> list_ex unicode_key s \<Longrightarrow> concat (map unicode_subst s) = s"
  by (induction s) (auto simp: unicode_subst_other)

lemma normalize_unicode_math_no_key:
  "\<not> list_ex unicode_key s \<Longrightarrow> normalize_unicode_math s = Inr (s, 0)"
  by (simp add: normalize_unicode_math_subst subst_id list_ex_iff filter_empty_conv)

lemma normalize_unicode_math_zero: "normalize_unicode_math s = Inr (d, 0) \<Longrightarrow> d = s"
proof -
  assume "normalize_unicode_math s = Inr (d, 0)"
  then have d: "d = concat (map unicode_subst s)" and "filter unicode_key s = []"
    by (simp_all add: normalize_unicode_math_subst)
  then have "\<not> list_ex unicode_key s" by (simp add: list_ex_iff filter_empty_conv)
  with d show ?thesis by (simp add: subst_id)
qed

subsection \<open>Long tables and minipage wrappers written out\<close>

lemma takeWhile_until: "x \<notin> set xs \<Longrightarrow> takeWhile (\<lambda>c. c \<noteq> x) (xs @ x # ys) = xs"
  by (induction xs) auto

lemma dropWhile_until: "x \<notin> set xs \<Longrightarrow> dropWhile (\<lambda>c. c \<noteq> x) (xs @ x # ys) = x # ys"
  by (induction xs) auto

lemma re_exec_lt_env:
  assumes cols: "RBRACE \<notin> set cols" and body: "\<not> sublist end_longtable body"
  shows "re_exec LONGTABLE_PATTERN (lt_env cols body @ rest)
    = Some \<lparr>matched = lt_env cols body, named = [(''cols'', cols), (''body'', body)]\<rparr>"
proof -
  have "re_match [Lazy, Lit end_longtable] (body @ end_longtable @ rest) = Some [body, end_longtable]"
    using re_match_body_end[OF marker_tails(4), of body rest] body
    by (simp add: end_longtable_def)
  then have "re_match [Greedy (\<lambda>c. c \<noteq> RBRACE), Lit [RBRACE], Lazy, Lit end_longtable]
      (cols @ RBRACE # body @ end_longtable @ rest) = Some [cols, [RBRACE], body, end_longtable]"
    by (simp add: re_match_Greedy_Lit takeWhile_until[OF cols] dropWhile_until[OF cols])
  then show ?thesis
    by (simp add: re_exec_def LONGTABLE_PATTERN_def lt_env_def)
qed

lemma re_exec_mp_env:
  assumes pos: "RBRACKET \<notin> set pos" and width: "RBRACE \<notin> set width"
    and c: "\<not> sublist end_minipage c"
  shows "re_exec MINIPAGE_PATTERN (mp_env pos width c @ rest)
    = Some \<lparr>matched = mp_env pos width c, named = [(''body'', c)]\<rparr>"
proof -
  have br: "asc '']{'' = [RBRACKET, 123]" by (simp add: asc_def RBRACKET_def)
  have "re_match [Lazy, Lit end_minipage] (c @ end_minipage @ rest) = Some [c, end_minipage]"
    using re_match_body_end[OF marker_tails(6), of c rest] c
    by (simp add: end_minipage_def)
  then have "re_match [Greedy (\<lambda>c. c \<noteq> RBRACE), Lit [RBRACE], Lazy, Lit end_minipage]
      (width @ RBRACE # c @ end_minipage @ rest) = Some [width, [RBRACE], c, end_minipage]"
    by (simp add: re_match_Greedy_Lit takeWhile_until[OF width] dropWhile_until[OF width])
  then have "re_match [Greedy (\<lambda>c. c \<noteq> RBRACKET), Lit (asc '']{''),
        Greedy (\<lambda>c. c \<noteq> RBRACE), Lit [RBRACE], Lazy, Lit end_minipage]
      (pos @ asc '']{'' @ width @ RBRACE # c @ end_minipage @ rest)
      = Some [pos, asc '']{'', width, [RBRACE], c, end_minipage]"
    unfolding br by (simp add: re_match_Greedy_Lit takeWhile_until[OF pos] dropWhile_until[OF pos])
  then show ?thesis
    by (simp add: re_exec_def MINIPAGE_PATTERN_def mp_env_def)
qed

lemma scan_lt_env:
  assumes t: "\<not> sublist begin_longtable t" and cols: "RBRACE \<notin> set cols"
    and body: "\<not> sublist end_longtable body"
  shows "re_scan LONGTABLE_PATTERN (t @ lt_env cols body @ rest) =
    map Txt t @ Mtch \<lparr>matched = lt_env cols body, named = [(''cols'', cols), (''body'', body)]\<rparr>
      # re_scan LONGTABLE_PATTERN rest"
proof -
  let ?w = "lt_env cols body"
  have "re_scan LONGTABLE_PATTERN (t @ ?w @ rest) = map Txt t @ re_scan LONGTABLE_PATTERN (?w @ rest)"
  proof (rule re_scan_skip)
    fix i assume i: "i < length t"
    show "re_exec LONGTABLE_PATTERN (drop i t @ ?w @ rest) = None"
      by (rule no_match_in_piece[where p = "asc ''begin{longtable}{''"])
        (use t i marker_tails in \<open>simp_all add: LONGTABLE_PATTERN_def begin_longtable_def lt_env_def\<close>)
  qed
  moreover have "re_scan LONGTABLE_PATTERN (?w @ rest) =
    Mtch \<lparr>matched = ?w, named = [(''cols'', cols), (''body'', body)]\<rparr> # re_scan LONGTABLE_PATTERN rest"
    by (rule re_scan_hit)
      (use re_exec_lt_env[OF cols body, of rest] in \<open>simp_all add: lt_env_def begin_longtable_def\<close>)
  ultimately show ?thesis by simp
qed

lemma scan_mp_env:
  assumes u: "\<not> sublist begin_minipage u" and pos: "RBRACKET \<notin> set pos"
    and width: "RBRACE \<notin> set width" and c: "\<not> sublist end_minipage c"
  shows "re_scan MINIPAGE_PATTERN (u @ mp_env pos width c @ rest) =
    map Txt u @ Mtch \<lparr>matched = mp_env pos width c, named = [(''body'', c)]\<rparr>
      # re_scan MINIPAGE_PATTERN rest"
proof -
  let ?w = "mp_env pos width c"
  have "re_scan MINIPAGE_PATTERN (u @ ?w @ rest) = map Txt u @ re_scan MINIPAGE_PATTERN (?w @ rest)"
  proof (rule re_scan_skip)
    fix i assume i: "i < length u"
    show "re_exec MINIPAGE_PATTERN (drop i u @ ?w @ rest) = None"
      by (rule no_match_in_piece[where p = "asc ''begin{minipage}[''"])
        (use u i marker_tails in \<open>simp_all add: MINIPAGE_PATTERN_def begin_minipage_def mp_env_def\<close>)
  qed
  moreover have "re_scan MINIPAGE_PATTERN (?w @ rest) =
    Mtch \<lparr>matched = ?w, named = [(''body'', c)]\<rparr> # re_scan MINIPAGE_PATTERN rest"
    by (rule re_scan_hit)
      (use re_exec_mp_env[OF pos width c, of rest] in \<open>simp_all add: mp_env_def begin_minipage_def\<close>)
  ultimately show ?thesis by simp
qed

lemma subn_segs_Txt_only: "subn_segs replacer (map Txt t) = Inr (t, 0)"
  using subn_segs_Txt[of replacer t "[]"] by simp

lemma strip_minipages_one:
  assumes u: "\<not> sublist begin_minipage u" and pos: "RBRACKET \<notin> set pos"
    and width: "RBRACE \<notin> set width" and c: "\<not> sublist end_minipage c"
    and v: "\<not> sublist begin_minipage v"
  shows "strip_minipages (u @ mp_env pos width c @ v) = Inr (u @ strip c @ v)"
proof -
  have "\<not> re_search MINIPAGE_PATTERN v"
    by (rule no_Lit_no_search[where l = begin_minipage]) (use v in \<open>simp_all add: MINIPAGE_PATTERN_def\<close>)
  then have "re_scan MINIPAGE_PATTERN v = map Txt v" by (simp add: re_scan_no_match)
  then show ?thesis
    unfolding strip_minipages_def re_subn_def scan_mp_env[OF u pos width c] subn_segs_Txt
    by (simp add: minipage_replacer_shape subn_segs_Txt_only)
qed

text \<open>One table in front of a text that is already rewritten.\<close>

lemma re_sub_lt_env:
  assumes t: "\<not> sublist begin_longtable t" and cols: "RBRACE \<notin> set cols"
    and body: "\<not> sublist end_longtable body"
    and b: "strip_minipages body = Inr b"
    and rest: "re_sub LONGTABLE_PATTERN longtable_replacer rest
      (if re_search MINIPAGE_PATTERN body then n + 1 else n) = Inr (out, k)"
  shows "re_sub LONGTABLE_PATTERN longtable_replacer (t @ lt_env cols body @ rest) n
    = Inr (t @ lt_env cols b @ out, k)"
  using rest
  unfolding re_sub_def scan_lt_env[OF t cols body] sub_segs_Txt
  by (simp add: longtable_replacer_shape[OF b] lt_env_def)

lemma re_sub_lt_fin:
  assumes "\<not> sublist begin_longtable fin"
  shows "re_sub LONGTABLE_PATTERN longtable_replacer fin n = Inr (fin, n)"
proof -
  have "\<not> re_search LONGTABLE_PATTERN fin"
    by (rule no_Lit_no_search[where l = begin_longtable]) (use assms in \<open>simp_all add: LONGTABLE_PATTERN_def\<close>)
  then show ?thesis by (rule re_sub_no_match)
qed

lemma simplify_two_longtables:
  assumes t: "\<not> sublist begin_longtable t0" "\<not> sublist begin_longtable t1"
      "\<not> sublist begin_longtable t2"
    and cols: "RBRACE \<notin> set cols1" "RBRACE \<notin> set cols2"
    and body: "\<not> sublist end_longtable body1" "\<not> sublist end_longtable body2"
    and b: "strip_minipages body1 = Inr b1" "strip_minipages body2 = Inr b2"
  shows "simplify_longtables (t0 @ lt_env cols1 body1 @ t1 @ lt_env cols2 body2 @ t2)
    = Inr (t0 @ lt_env cols1 b1 @ t1 @ lt_env cols2 b2 @ t2,
       (if re_search MINIPAGE_PATTERN body1 then 1 else 0)
       + (if re_search MINIPAGE_PATTERN body2 then 1 else 0))"
proof -
  let ?n1 = "if re_search MINIPAGE_PATTERN body1 then 0 + 1 else (0::nat)"
  let ?n2 = "if re_search MINIPAGE_PATTERN body2 then ?n1 + 1 else ?n1"
  have "re_sub LONGTABLE_PATTERN longtable_replacer (t1 @ lt_env cols2 body2 @ t2) ?n1
    = Inr (t1 @ lt_env cols2 b2 @ t2, ?n2)"
    by (rule re_sub_lt_env[OF t(2) cols(2) body(2) b(2)]) (rule re_sub_lt_fin[OF t(3)])
  from re_sub_lt_env[OF t(1) cols(1) body(1) b(1) this]
  show ?thesis by (simp add: simplify_longtables_def)
qed

subsection \<open>Bibliography items: a list-item marker before a quotation wrapper\<close>

lemma bib_doc_quote_doc: "bib_doc ws fin = quote_doc (as_quotes ws) fin"
  by (induction ws fin rule: bib_doc.induct) auto

lemma re_exec_bib_item:
  assumes w: "list_all isspace w" and c: "\<not> sublist end_quote c"
  shows "re_exec BIBITEM_QUOTE_PATTERN (item_marker @ w @ begin_quote @ c @ end_quote @ rest)
    = Some \<lparr>matched = item_marker @ w @ begin_quote @ c @ end_quote,
        named = [(''item'', item_marker), (''body'', strip c)]\<rparr>"
proof -
  have "re_match [Greedy isspace, Lazy, Greedy isspace, Lit end_quote] (c @ end_quote @ rest)
    = Some [lead c, strip c, trail c, end_quote]"
    using re_match_content_end[OF marker_tails(2), of c rest] c
    by (simp add: end_quote_def)
  then have "re_match [Greedy isspace, Lit begin_quote, Greedy isspace, Lazy, Greedy isspace, Lit end_quote]
      (w @ begin_quote @ c @ end_quote @ rest)
    = Some [w, begin_quote, lead c, strip c, trail c, end_quote]"
    using takeWhile_space_then_BSL[OF w] dropWhile_space_then_BSL[OF w]
    by (simp add: re_match_Greedy_Lit begin_quote_def not_space_BSL)
  then show ?thesis
    by (simp add: re_exec_def BIBITEM_QUOTE_PATTERN_def lead_strip_trail)
qed

lemma bibitem_replacer_shape:
  "bibitem_replacer \<lparr>matched = x, named = [(''item'', it), (''body'', strip c)]\<rparr>
    = Inr (it @ asc '' '' @ strip c)"
  by (simp add: bibitem_replacer_def group_def strip_idem)

lemma not_prefix_begin_item: "\<not> prefix begin_quote (item_marker @ x)"
  by (simp add: begin_quote_def item_marker_def asc_def)

text \<open>Inside a text without begin marker the pattern does not match, also at a list-item
  marker of the text: what follows it, after whitespace, is not a begin marker.\<close>

lemma no_bib_match_in_piece:
  assumes t: "\<not> sublist begin_quote t" and i: "i < length t"
  shows "re_exec BIBITEM_QUOTE_PATTERN (drop i t @ item_marker @ x) = None"
proof (cases "prefix item_marker (drop i t @ item_marker @ x)")
  case False
  then show ?thesis by (simp add: re_exec_None_iff BIBITEM_QUOTE_PATTERN_def)
next
  case True
  let ?z = "item_marker @ x"
  have z: "?z = [] \<or> hd ?z = BSL" by (simp add: item_marker_def)
  from i have ne: "drop i t \<noteq> []" by simp
  from True have "prefix (BSL # asc ''item'') (drop i t @ ?z)" by (simp add: item_marker_def)
  from prefix_straddle[OF marker_tails(7) ne z this] obtain y where
    y: "drop i t = item_marker @ y" by (auto simp: prefix_def item_marker_def)
  have "\<not> prefix begin_quote (dropWhile isspace (y @ ?z))"
  proof (cases "list_all isspace y")
    case True
    then have "dropWhile isspace (y @ ?z) = ?z"
      using dropWhile_space_then_BSL[of y "asc ''item'' @ x"] by (simp add: item_marker_def)
    then show ?thesis by (simp add: not_prefix_begin_item)
  next
    case False
    then obtain c where "c \<in> set y" "\<not> isspace c" by (auto simp: list_all_iff)
    then have d: "dropWhile isspace (y @ ?z) = dropWhile isspace y @ ?z"
      and ne': "dropWhile isspace y \<noteq> []"
      by (simp_all add: dropWhile_append1) (metis dropWhile_eq_Nil_conv)
    have "suffix (dropWhile isspace y) t"
      by (metis y suffix_drop suffix_dropWhile suffix_order.trans suffixI)
    then have "\<not> sublist begin_quote (dropWhile isspace y)" using t sublist_suffix by blast
    then have "\<not> prefix (BSL # asc ''begin{quote}'') (dropWhile isspace y)"
      using prefix_imp_sublist by (auto simp: begin_quote_def)
    with prefix_straddle[OF marker_tails(1) ne' z]
    have "\<not> prefix (BSL # asc ''begin{quote}'') (dropWhile isspace y @ ?z)" by blast
    then show ?thesis by (simp add: d begin_quote_def)
  qed
  then have "re_match [Greedy isspace, Lit begin_quote, Greedy isspace, Lazy, Greedy isspace,
      Lit end_quote] (y @ ?z) = None"
    by (simp add: re_match_Greedy_Lit begin_quote_def not_space_BSL)
  then show ?thesis
    by (simp add: re_exec_None_iff BIBITEM_QUOTE_PATTERN_def y)
qed

lemma scan_bib_item:
  assumes t: "\<not> sublist begin_quote t" and w: "list_all isspace w"
    and c: "\<not> sublist end_quote c"
  shows "re_scan BIBITEM_QUOTE_PATTERN (t @ item_marker @ w @ begin_quote @ c @ end_quote @ rest) =
    map Txt t @ Mtch \<lparr>matched = item_marker @ w @ begin_quote @ c @ end_quote,
        named = [(''item'', item_marker), (''body'', strip c)]\<rparr>
      # re_scan BIBITEM_QUOTE_PATTERN rest"
proof -
  let ?x = "w @ begin_quote @ c @ end_quote"
  have "re_scan BIBITEM_QUOTE_PATTERN (t @ item_marker @ ?x @ rest)
    = map Txt t @ re_scan BIBITEM_QUOTE_PATTERN (item_marker @ ?x @ rest)"
    by (rule re_scan_skip) (rule no_bib_match_in_piece[OF t])
  moreover have "re_scan BIBITEM_QUOTE_PATTERN ((item_marker @ ?x) @ rest) =
    Mtch \<lparr>matched = item_marker @ ?x, named = [(''item'', item_marker), (''body'', strip c)]\<rparr>
      # re_scan BIBITEM_QUOTE_PATTERN rest"
    by (rule re_scan_hit) (use re_exec_bib_item[OF w c, of rest] in \<open>simp_all add: item_marker_def\<close>)
  ultimately show ?thesis by simp
qed

lemma normalize_bibliography_items_doc:
  assumes "list_all (\<lambda>(t, w, c). \<not> sublist begin_quote t \<and> list_all isspace w
      \<and> \<not> sublist end_quote c) ws"
    and "\<not> sublist begin_quote fin"
  shows "normalize_bibliography_items (bib_doc ws fin) = Inr (bib_out ws fin, length ws)"
  using assms
proof (induction ws)
  case Nil
  have "\<not> re_search BIBITEM_QUOTE_PATTERN fin"
    by (rule no_Lit_no_search[where l = begin_quote])
      (use Nil in \<open>simp_all add: BIBITEM_QUOTE_PATTERN_def\<close>)
  then show ?case by (simp add: normalize_bibliography_items_def re_subn_no_match)
next
  case (Cons x ws)
  obtain t w c where x: "x = (t, w, c)" by (cases x)
  with Cons.prems have t: "\<not> sublist begin_quote t" and w: "list_all isspace w"
    and c: "\<not> sublist end_quote c" by auto
  from Cons have IH: "subn_segs bibitem_replacer (re_scan BIBITEM_QUOTE_PATTERN (bib_doc ws fin))
    = Inr (bib_out ws fin, length ws)"
    by (simp add: normalize_bibliography_items_def re_subn_def)
  show ?case
    unfolding normalize_bibliography_items_def re_subn_def x bib_doc.simps
      scan_bib_item[OF t w c] subn_segs_Txt
    by (simp add: bibitem_replacer_shape IH)
qed

text \<open>The text before a wrapper, with the list-item marker and the whitespace, has no begin
  marker.\<close>

lemma sublist_no_BSL:
  assumes "sublist (BSL # p) (q @ x)" and "BSL \<notin> set q"
  shows "sublist (BSL # p) x"
  using assms by (induction q) (auto simp: sublist_Cons_right)

lemma not_sublist_item:
  assumes t: "\<not> sublist begin_quote t" and w: "list_all isspace w"
  shows "\<not> sublist begin_quote (t @ item_marker @ w)"
proof
  assume "sublist begin_quote (t @ item_marker @ w)"
  then consider "sublist begin_quote t" | "sublist begin_quote (item_marker @ w)"
    | m1 m2 where "begin_quote = m1 @ m2" "suffix m1 t" "prefix m2 (item_marker @ w)"
      "m1 \<noteq> []" "m2 \<noteq> []"
    unfolding sublist_append[of begin_quote t]
    by (metis append_Nil append_Nil2 prefix_imp_sublist suffix_imp_sublist)
  then show False
  proof cases
    case 1
    with t show ?thesis ..
  next
    case 2
    then have "prefix begin_quote (item_marker @ w) \<or> sublist begin_quote (asc ''item'' @ w)"
      by (simp add: item_marker_def sublist_Cons_right)
    with not_prefix_begin_item have "sublist (BSL # asc ''begin{quote}'') (asc ''item'' @ w)"
      by (auto simp: begin_quote_def)
    from sublist_no_BSL[OF this marker_tails(7)] have "sublist (BSL # asc ''begin{quote}'') w" .
    then have "BSL \<in> set w" by (meson list.set_intros(1) set_mono_sublist subsetD)
    with w not_space_BSL show ?thesis by (auto simp: list_all_iff)
  next
    case 3
    from 3(3,5) have "hd m2 = BSL" by (cases m2) (auto simp: item_marker_def)
    with 3(5) have "BSL \<in> set m2" by (metis hd_in_set)
    moreover from 3(1,4) obtain m1' where "m1 = BSL # m1'" "asc ''begin{quote}'' = m1' @ m2"
      by (cases m1) (auto simp: begin_quote_def)
    ultimately show ?thesis using marker_tails(1) by simp
  qed
qed

lemma as_quotes_clean:
  assumes "list_all (\<lambda>(t, w, c). \<not> sublist begin_quote t \<and> list_all isspace w
      \<and> \<not> sublist end_quote c) ws"
  shows "list_all (\<lambda>(t, c). \<not> sublist begin_quote t \<and> \<not> sublist end_quote c) (as_quotes ws)"
  using assms by (induction ws rule: as_quotes.induct) (auto simp: not_sublist_item)

lemma length_as_quotes: "length (as_quotes ws) = length ws"
  by (induction ws rule: as_quotes.induct) auto

lemma value_heads:
  assumes "(k, r) \<in> set UNICODE_MATH_REPLACEMENTS"
  shows "\<exists>q. r = BSL # BSL # q \<and> q \<noteq> [] \<and> BSL \<notin> set q \<and> (hd q = 116 \<or> hd q = 109)"
  using assms by (auto simp: UNICODE_MATH_REPLACEMENTS_def asc_def BSL_def)

lemma sublist_after_value:
  assumes d: "unicode_key d" and p: "BSL \<notin> set p" "p \<noteq> []" "hd p \<noteq> 116" "hd p \<noteq> 109"
    and s: "sublist (BSL # p) (unicode_subst d @ x)"
  shows "sublist (BSL # p) x"
proof -
  from value_heads[OF subst_in_table[OF d]] obtain q where
    v: "unicode_subst d = BSL # BSL # q" and q: "q \<noteq> []" "BSL \<notin> set q" "hd q = 116 \<or> hd q = 109"
    by blast
  from p have "\<not> prefix p (BSL # y)" for y by (cases p) auto
  moreover from p q have "\<not> prefix p (q @ x)" by (cases p; cases q) auto
  ultimately have "sublist (BSL # p) (q @ x)"
    using s by (simp add: v sublist_Cons_right)
  then show ?thesis using q(2) by (rule sublist_no_BSL)
qed

lemma subst_keeps_begin_quote:
  assumes "\<not> sublist begin_quote s"
  shows "\<not> sublist begin_quote (concat (map unicode_subst s))"
proof
  assume a: "sublist begin_quote (concat (map unicode_subst s))"
  have "sublist (BSL # asc ''begin{quote}'') s"
  proof (rule sublist_subst_marker)
    show "\<forall>c\<in>set (asc ''begin{quote}''). c \<noteq> BSL \<and> \<not> unicode_key c"
      by (simp add: asc_def BSL_def unicode_key_cases)
    show "asc ''begin{quote}'' \<noteq> []" by (simp add: asc_def)
    show "sublist (BSL # asc ''begin{quote}'') x"
      if "unicode_key d" "sublist (BSL # asc ''begin{quote}'') (unicode_subst d @ x)" for d x
      by (rule sublist_after_value[OF that(1) _ _ _ _ that(2)]) (simp_all add: asc_def BSL_def)
    show "sublist (BSL # asc ''begin{quote}'') (concat (map unicode_subst s))"
      using a by (simp add: begin_quote_def)
  qed
  with assms show False by (simp add: begin_quote_def)
qed

lemma subst_keeps_begin_minipage:
  assumes "\<not> sublist begin_minipage s"
  shows "\<not> sublist begin_minipage (concat (map unicode_subst s))"
proof
  assume a: "sublist begin_minipage (concat (map unicode_subst s))"
  have "sublist (BSL # asc ''begin{minipage}['') s"
  proof (rule sublist_subst_marker)
    show "\<forall>c\<in>set (asc ''begin{minipage}[''). c \<noteq> BSL \<and> \<not> unicode_key c"
      by (simp add: asc_def BSL_def unicode_key_cases)
    show "asc ''begin{minipage}['' \<noteq> []" by (simp add: asc_def)
    show "sublist (BSL # asc ''begin{minipage}['') x"
      if "unicode_key d" "sublist (BSL # asc ''begin{minipage}['') (unicode_subst d @ x)" for d x
      by (rule sublist_after_value[OF that(1) _ _ _ _ that(2)]) (simp_all add: asc_def BSL_def)
    show "sublist (BSL # asc ''begin{minipage}['') (concat (map unicode_subst s))"
      using a by (simp add: begin_minipage_def)
  qed
  with assms show False by (simp add: begin_minipage_def)
qed

lemma no_begin_quote_no_item:
  assumes "\<not> sublist begin_quote d"
  shows "normalize_bibliography_items d = Inr (d, 0)"
proof -
  have "\<not> re_search BIBITEM_QUOTE_PATTERN d"
    by (rule no_Lit_no_search[where l = begin_quote])
      (use assms in \<open>simp_all add: BIBITEM_QUOTE_PATTERN_def\<close>)
  then show ?thesis by (simp add: normalize_bibliography_items_def re_subn_no_match)
qed

lemma no_begin_minipage_same:
  assumes "\<not> sublist begin_minipage d"
  shows "simplify_longtables d = Inr (d, 0)"
proof -
  have "\<not> re_search MINIPAGE_PATTERN d"
    by (rule no_Lit_no_search[where l = begin_minipage])
      (use assms in \<open>simp_all add: MINIPAGE_PATTERN_def\<close>)
  then show ?thesis by (rule simplify_longtables_no_minipage)
qed

section \<open>The claims\<close>

text \<open>
  C1. The claim: on the input \<open>\begin{quote}Hello R\end{quote}\<close>, with the blackboard R
  (U+211D) for \<open>R\<close>, the pipeline returns the document \<open>Hello \mathbb{R}\<close> and the report
  1, 1, 0, 0. The code returns the report of the claim, but its document has two
  backslashes before \<open>mathbb{R}\<close>, as the value of the table has: it is not the document of
  the claim.
\<close>

theorem cleanup_latex_hello:
  "cleanup_latex (begin_quote @ asc ''Hello '' @ [0x211D] @ end_quote) =
     Inr (asc ''Hello '' @ [BSL, BSL] @ asc ''mathbb{R}'',
          \<lparr>removed_quote_blocks = 1, unicode_replacements = 1,
           simplified_longtables = 0, normalized_bibliography_items = 0\<rparr>)
   \<and> asc ''Hello '' @ [BSL, BSL] @ asc ''mathbb{R}'' \<noteq> asc ''Hello '' @ [BSL] @ asc ''mathbb{R}''"
  by (simp add: run_defs)

text \<open>
  C2. The claim: for a document whose only quotation wrappers each come right after a
  list-item marker, with whitespace at most between them, the pipeline reports 0
  bibliography items, and \<open>normalize_bibliography_items\<close> alone reports the number of these
  items. For wrappers that are not nested, the pass alone reports that number; in the
  pipeline the first pass removes all the wrappers, and the fourth pass reports 0 when the
  text that reaches it has no begin marker of a quotation; it has none when the text left
  by the first pass has no begin marker of a quotation and none of a minipage. The claim
  fails for an item inside the wrapper of another item, and it fails without nesting when
  the removal of the wrappers joins text into a new wrapper after a list-item marker: the
  fourth pass then counts an item.
\<close>

theorem bibliography_count_order:
  assumes "list_all (\<lambda>(t, w, c). \<not> sublist begin_quote t \<and> list_all isspace w
      \<and> \<not> sublist end_quote c) ws"
    and "\<not> sublist begin_quote fin"
  shows "normalize_bibliography_items (bib_doc ws fin) = Inr (bib_out ws fin, length ws)
    \<and> (\<exists>d2 n2 d3 n3 d4 n4.
         remove_quote_blocks (bib_doc ws fin) = Inr (unwrapped (as_quotes ws) fin, length ws)
         \<and> normalize_unicode_math (unwrapped (as_quotes ws) fin) = Inr (d2, n2)
         \<and> simplify_longtables d2 = Inr (d3, n3)
         \<and> normalize_bibliography_items d3 = Inr (d4, n4)
         \<and> cleanup_latex (bib_doc ws fin) =
             Inr (d4, \<lparr>removed_quote_blocks = length ws, unicode_replacements = n2,
                       simplified_longtables = n3, normalized_bibliography_items = n4\<rparr>)
         \<and> (\<not> sublist begin_quote d3 \<longrightarrow> n4 = 0)
         \<and> (\<not> sublist begin_quote (unwrapped (as_quotes ws) fin)
              \<and> \<not> sublist begin_minipage (unwrapped (as_quotes ws) fin) \<longrightarrow> n4 = 0))"
proof
  show "normalize_bibliography_items (bib_doc ws fin) = Inr (bib_out ws fin, length ws)"
    using assms by (rule normalize_bibliography_items_doc)
  let ?d1 = "unwrapped (as_quotes ws) fin"
  let ?d2 = "concat (map unicode_subst ?d1)"
  have 1: "remove_quote_blocks (bib_doc ws fin) = Inr (?d1, length ws)"
    using remove_quote_blocks_doc[OF as_quotes_clean[OF assms(1)] assms(2)]
    by (simp add: bib_doc_quote_doc length_as_quotes)
  obtain n2 where 2: "normalize_unicode_math ?d1 = Inr (?d2, n2)"
    using normalize_unicode_math_subst by blast
  from simplify_longtables_total obtain d3 n3 where 3: "simplify_longtables ?d2 = Inr (d3, n3)"
    by blast
  from normalize_bibliography_items_total obtain d4 n4 where
    4: "normalize_bibliography_items d3 = Inr (d4, n4)" by blast
  from 1 2 3 4 have 5: "cleanup_latex (bib_doc ws fin) =
             Inr (d4, \<lparr>removed_quote_blocks = length ws, unicode_replacements = n2,
                       simplified_longtables = n3, normalized_bibliography_items = n4\<rparr>)"
    by (simp add: cleanup_latex_def)
  have 6: "n4 = 0" if "\<not> sublist begin_quote d3"
    using no_begin_quote_no_item[OF that] 4 by simp
  have 7: "n4 = 0" if "\<not> sublist begin_quote ?d1 \<and> \<not> sublist begin_minipage ?d1"
  proof -
    from that have "\<not> sublist begin_quote ?d2" "\<not> sublist begin_minipage ?d2"
      by (simp_all add: subst_keeps_begin_quote subst_keeps_begin_minipage)
    with no_begin_minipage_same[of ?d2] 3 have "\<not> sublist begin_quote d3" by simp
    then show ?thesis by (rule 6)
  qed
  from 1 2 3 4 5 6 7 show "\<exists>d2 n2 d3 n3 d4 n4.
         remove_quote_blocks (bib_doc ws fin) = Inr (unwrapped (as_quotes ws) fin, length ws)
         \<and> normalize_unicode_math (unwrapped (as_quotes ws) fin) = Inr (d2, n2)
         \<and> simplify_longtables d2 = Inr (d3, n3)
         \<and> normalize_bibliography_items d3 = Inr (d4, n4)
         \<and> cleanup_latex (bib_doc ws fin) =
             Inr (d4, \<lparr>removed_quote_blocks = length ws, unicode_replacements = n2,
                       simplified_longtables = n3, normalized_bibliography_items = n4\<rparr>)
         \<and> (\<not> sublist begin_quote d3 \<longrightarrow> n4 = 0)
         \<and> (\<not> sublist begin_quote (unwrapped (as_quotes ws) fin)
              \<and> \<not> sublist begin_minipage (unwrapped (as_quotes ws) fin) \<longrightarrow> n4 = 0)"
    by blast
qed

theorem bibliography_count_order_witness:
  "normalize_bibliography_items
     (asc ''Refs: '' @ item_marker @ asc '' '' @ begin_quote @ asc '' Knuth '' @ end_quote
      @ asc ''; '' @ item_marker @ begin_quote @ asc ''Lamport'' @ end_quote @ asc ''.'')
     = Inr (asc ''Refs: '' @ item_marker @ asc '' Knuth; '' @ item_marker @ asc '' Lamport.'', 2)
   \<and> (\<exists>d st. cleanup_latex
        (asc ''Refs: '' @ item_marker @ asc '' '' @ begin_quote @ asc '' Knuth '' @ end_quote
         @ asc ''; '' @ item_marker @ begin_quote @ asc ''Lamport'' @ end_quote @ asc ''.'')
        = Inr (d, st)
      \<and> removed_quote_blocks st = 2 \<and> normalized_bibliography_items st = 0)"
proof -
  let ?ws = "[(asc ''Refs: '', asc '' '', asc '' Knuth ''), (asc ''; '', [], asc ''Lamport'')]"
  let ?fin = "asc ''.''"
  have h1: "list_all (\<lambda>(t, w, c). \<not> sublist begin_quote t \<and> list_all isspace w
      \<and> \<not> sublist end_quote c) ?ws"
    by (simp add: text_defs)
  have h2: "\<not> sublist begin_quote ?fin" by (simp add: text_defs)
  have d: "bib_doc ?ws ?fin =
     asc ''Refs: '' @ item_marker @ asc '' '' @ begin_quote @ asc '' Knuth '' @ end_quote
      @ asc ''; '' @ item_marker @ begin_quote @ asc ''Lamport'' @ end_quote @ asc ''.''"
    by simp
  have out: "bib_out ?ws ?fin
    = asc ''Refs: '' @ item_marker @ asc '' Knuth; '' @ item_marker @ asc '' Lamport.''"
    by (simp add: text_defs)
  have free: "\<not> sublist begin_quote (unwrapped (as_quotes ?ws) ?fin)
      \<and> \<not> sublist begin_minipage (unwrapped (as_quotes ?ws) ?fin)"
    by (simp add: text_defs)
  from bibliography_count_order[OF h1 h2] free show ?thesis
    unfolding d out by force
qed

theorem bibliography_count_order_counterexample:
  "list_all (\<lambda>(t, w, c). quote_free t \<and> list_all isspace w \<and> quote_free c)
      [([], [], item_marker @ BSL # asc ''begin{qu''), (asc ''ote}x'', [], BSL # asc ''end{qu'')]
   \<and> quote_free (asc ''ote}'')
   \<and> normalize_bibliography_items
       (bib_doc [([], [], item_marker @ BSL # asc ''begin{qu''), (asc ''ote}x'', [], BSL # asc ''end{qu'')]
          (asc ''ote}''))
     = Inr (item_marker @ asc '' '' @ item_marker @ begin_quote @ asc ''x'' @ item_marker
            @ asc '' '' @ end_quote, 2)
   \<and> cleanup_latex
       (bib_doc [([], [], item_marker @ BSL # asc ''begin{qu''), (asc ''ote}x'', [], BSL # asc ''end{qu'')]
          (asc ''ote}''))
     = Inr (item_marker @ item_marker @ asc '' x'' @ item_marker,
            \<lparr>removed_quote_blocks = 2, unicode_replacements = 0,
             simplified_longtables = 0, normalized_bibliography_items = 1\<rparr>)
   \<and> cleanup_latex
       (item_marker @ begin_quote @ asc ''a '' @ item_marker @ begin_quote @ asc ''b''
          @ end_quote @ asc '' c'' @ end_quote)
     = Inr (item_marker @ asc ''a '' @ item_marker @ asc '' b c'',
            \<lparr>removed_quote_blocks = 1, unicode_replacements = 0,
             simplified_longtables = 0, normalized_bibliography_items = 1\<rparr>)
   \<and> normalize_bibliography_items
       (item_marker @ begin_quote @ asc ''a '' @ item_marker @ begin_quote @ asc ''b''
          @ end_quote @ asc '' c'' @ end_quote)
     = Inr (item_marker @ asc '' a '' @ item_marker @ begin_quote @ asc ''b c'' @ end_quote, 1)"
  by (simp add: run_defs text_defs)

text \<open>
  C3. The claim: the table has six entries, for the symbols tau, script Z and the
  blackboard Z, R, Q and N; a document with each of the six symbols exactly once is mapped
  to a document without any of them, with the count 6, in which the macro of each symbol
  occurs exactly once. The table has six entries, and the last five keys are the symbols
  of the claim; the first key of the code is the code point U+01AE, which is not the
  letter tau (U+03C4). For a document with each key of the table exactly once, the result has no
  key, the count is 6, and each value of the table occurs once more often than in the
  input: exactly once when the input has none, but twice when the input already has one.
\<close>

theorem normalize_unicode_math_complete:
  assumes "list_all (\<lambda>(k, r). str_count k s = 1) UNICODE_MATH_REPLACEMENTS"
  shows "length UNICODE_MATH_REPLACEMENTS = 6
    \<and> list_all unicode_key [0x1D4B5, 0x2124, 0x211D, 0x211A, 0x2115]
    \<and> (\<exists>out. normalize_unicode_math s = Inr (out, 6)
         \<and> list_all (\<lambda>(k, r). str_count k out = 0 \<and> occurrences r out = occurrences r s + 1)
              UNICODE_MATH_REPLACEMENTS)"
proof -
  let ?out = "concat (map unicode_subst s)"
  have six: "length UNICODE_MATH_REPLACEMENTS = 6"
    by (simp add: UNICODE_MATH_REPLACEMENTS_def)
  have keys: "list_all unicode_key [0x1D4B5, 0x2124, 0x211D, 0x211A, 0x2115]"
    by (simp add: unicode_key_cases)
  from assms have "map (\<lambda>(k, r). str_count k s) UNICODE_MATH_REPLACEMENTS
    = map (\<lambda>kr. 1) UNICODE_MATH_REPLACEMENTS"
    by (auto simp: list_all_iff)
  then have "length (filter unicode_key s) = 6"
    unfolding key_count_sum by (simp add: UNICODE_MATH_REPLACEMENTS_def)
  then have run: "normalize_unicode_math s = Inr (?out, 6)"
    by (simp add: normalize_unicode_math_subst)
  have "str_count k ?out = 0 \<and> occurrences r ?out = occurrences r s + 1"
    if kr: "(k, r) \<in> set UNICODE_MATH_REPLACEMENTS" for k r
  proof
    from value_shape[OF kr] have "unicode_key k" ..
    with subst_no_key[of k s] have "k \<notin> set ?out" by blast
    then show "str_count k ?out = 0" by (rule str_count_zero)
    from kr assms have "str_count k s = 1" by (auto simp: list_all_iff)
    with occurrences_subst[OF kr, of s] show "occurrences r ?out = occurrences r s + 1" by simp
  qed
  then have "list_all (\<lambda>(k, r). str_count k ?out = 0 \<and> occurrences r ?out = occurrences r s + 1)
    UNICODE_MATH_REPLACEMENTS"
    by (auto simp: list_all_iff)
  with six keys run show ?thesis by blast
qed

theorem normalize_unicode_math_complete_witness:
  "normalize_unicode_math ([0x1AE, 0x1D4B5, 0x2124] @ asc ''x'' @ [0x211D, 0x211A, 0x2115])
     = Inr (BSL # BSL # asc ''tau'' @ BSL # BSL # asc ''mathcal{Z}'' @ BSL # BSL # asc ''mathbb{Z}''
            @ asc ''x'' @ BSL # BSL # asc ''mathbb{R}'' @ BSL # BSL # asc ''mathbb{Q}''
            @ BSL # BSL # asc ''mathbb{N}'', 6)
   \<and> occurrences (BSL # BSL # asc ''mathbb{R}'') (BSL # BSL # asc ''tau'' @ BSL # BSL # asc ''mathcal{Z}'' @ BSL # BSL # asc ''mathbb{Z}''
            @ asc ''x'' @ BSL # BSL # asc ''mathbb{R}'' @ BSL # BSL # asc ''mathbb{Q}''
            @ BSL # BSL # asc ''mathbb{N}'') = 1"
proof -
  let ?s = "[0x1AE, 0x1D4B5, 0x2124] @ asc ''x'' @ [0x211D, 0x211A, 0x2115]"
  have h: "list_all (\<lambda>(k, r). str_count k ?s = 1) UNICODE_MATH_REPLACEMENTS"
    by (simp add: UNICODE_MATH_REPLACEMENTS_def str_count_def asc_def)
  have run: "normalize_unicode_math ?s
     = Inr (BSL # BSL # asc ''tau'' @ BSL # BSL # asc ''mathcal{Z}'' @ BSL # BSL # asc ''mathbb{Z}''
            @ asc ''x'' @ BSL # BSL # asc ''mathbb{R}'' @ BSL # BSL # asc ''mathbb{Q}''
            @ BSL # BSL # asc ''mathbb{N}'', 6)"
    by (simp add: run_defs)
  have o: "occurrences (BSL # BSL # asc ''mathbb{R}'') ?s = 0"
    by (simp add: asc_def BSL_def)
  from normalize_unicode_math_complete[OF h] run o show ?thesis
    by (auto simp: UNICODE_MATH_REPLACEMENTS_def)
qed

theorem normalize_unicode_math_complete_counterexample:
  "\<not> unicode_key 0x3C4
   \<and> list_all (\<lambda>(k, r). str_count k ([0x1AE, 0x1D4B5, 0x2124, 0x211D, 0x211A, 0x2115] @ BSL # BSL # asc ''tau'') = 1)
      UNICODE_MATH_REPLACEMENTS
   \<and> normalize_unicode_math ([0x1AE, 0x1D4B5, 0x2124, 0x211D, 0x211A, 0x2115] @ BSL # BSL # asc ''tau'')
     = Inr (BSL # BSL # asc ''tau'' @ BSL # BSL # asc ''mathcal{Z}'' @ BSL # BSL # asc ''mathbb{Z}''
            @ BSL # BSL # asc ''mathbb{R}'' @ BSL # BSL # asc ''mathbb{Q}''
            @ BSL # BSL # asc ''mathbb{N}'' @ BSL # BSL # asc ''tau'', 6)
   \<and> occurrences (BSL # BSL # asc ''tau'')
        (BSL # BSL # asc ''tau'' @ BSL # BSL # asc ''mathcal{Z}'' @ BSL # BSL # asc ''mathbb{Z}''
            @ BSL # BSL # asc ''mathbb{R}'' @ BSL # BSL # asc ''mathbb{Q}''
            @ BSL # BSL # asc ''mathbb{N}'' @ BSL # BSL # asc ''tau'') = 2"
  by (simp add: run_defs unicode_key_cases)

text \<open>
  C4. The claim: when no quotation wrapper is nested more than one level deep, running
  \<open>remove_quote_blocks\<close> on its own output returns that output and the count 0. It fails
  for one wrapper inside another, where the first run leaves the inner begin marker and the
  outer end marker, and it fails without any nesting when the removal puts a wrapper
  together. It holds for wrappers that are not nested when no text that the removal joins
  to the next one ends with the start of a begin marker.
\<close>

theorem remove_quote_blocks_twice:
  assumes "list_all (\<lambda>(t, c). quote_free t \<and> quote_free c) ws" and "quote_free fin"
    and "list_all (\<lambda>x. \<not> ends_partial begin_quote x) (pieces ws)"
  shows "remove_quote_blocks (quote_doc ws fin) = Inr (unwrapped ws fin, length ws) \<and>
    remove_quote_blocks (unwrapped ws fin) = Inr (unwrapped ws fin, 0)"
proof
  from assms(2) have fin: "\<not> sublist begin_quote fin" by (simp add: quote_free_def)
  show "remove_quote_blocks (quote_doc ws fin) = Inr (unwrapped ws fin, length ws)"
    by (rule remove_quote_blocks_doc) (rule clean_pieces_split(1)[OF assms(1)], rule fin)
  from unwrapped_free[OF clean_pieces_split(2)[OF assms(1)] fin assms(3)]
  show "remove_quote_blocks (unwrapped ws fin) = Inr (unwrapped ws fin, 0)"
    by (rule no_begin_quote_fixed)
qed

theorem remove_quote_blocks_twice_witness:
  "remove_quote_blocks (asc ''x'' @ begin_quote @ asc '' y '' @ end_quote @ asc ''z'')
     = Inr (asc ''xyz'', 1)
   \<and> remove_quote_blocks (asc ''xyz'') = Inr (asc ''xyz'', 0)"
proof -
  let ?ws = "[(asc ''x'', asc '' y '')]"
  have 1: "list_all (\<lambda>(t, c). quote_free t \<and> quote_free c) ?ws"
    by (simp add: text_defs)
  have 2: "quote_free (asc ''z'')"
    by (simp add: text_defs)
  have 3: "list_all (\<lambda>x. \<not> ends_partial begin_quote x) (pieces ?ws)"
    by (simp add: text_defs)
  have 4: "unwrapped ?ws (asc ''z'') = asc ''xyz''" "quote_doc ?ws (asc ''z'') =
    asc ''x'' @ begin_quote @ asc '' y '' @ end_quote @ asc ''z''"
    by (simp_all add: text_defs)
  from remove_quote_blocks_twice[OF 1 2 3] show ?thesis
    unfolding 4 by simp
qed

theorem remove_quote_blocks_twice_counterexample:
  "quote_free (BSL # asc ''begin{qu'') \<and> quote_free (BSL # asc ''end{qu'') \<and> quote_free (asc ''ote}'')
   \<and> remove_quote_blocks (begin_quote @ asc ''a'' @ begin_quote @ asc ''b'' @ end_quote @ asc ''c'' @ end_quote)
     = Inr (asc ''a'' @ begin_quote @ asc ''bc'' @ end_quote, 1)
   \<and> remove_quote_blocks (asc ''a'' @ begin_quote @ asc ''bc'' @ end_quote) = Inr (asc ''abc'', 1)
   \<and> remove_quote_blocks
       (BSL # asc ''begin{qu'' @ begin_quote @ asc ''ote}'' @ end_quote @ BSL # asc ''end{qu''
          @ begin_quote @ asc ''ote}'' @ end_quote)
     = Inr (begin_quote @ end_quote, 2)
   \<and> remove_quote_blocks (begin_quote @ end_quote) = Inr ([], 1)"
  by (simp add: run_defs text_defs)

text \<open>
  C5. The claim: for a document with exactly \<open>k\<close> quotation wrappers, not nested and each
  closed, \<open>remove_quote_blocks\<close> returns the count \<open>k\<close> and a document without any
  begin or end marker. The count is \<open>k\<close>, and the document returned is the input with each
  wrapper replaced by its content without the whitespace around it. That document has no
  marker when no text that the removal joins to the next one ends with the start of a
  marker; otherwise the removal can put a marker together, as in
  \<open>\begin{qu\begin{quote}ote}\end{quote}\<close>.
\<close>

theorem remove_quote_blocks_count:
  assumes "list_all (\<lambda>(t, c). quote_free t \<and> quote_free c) ws" and "quote_free fin"
  shows "remove_quote_blocks (quote_doc ws fin) = Inr (unwrapped ws fin, length ws) \<and>
    (list_all (\<lambda>x. \<not> ends_partial begin_quote x \<and> \<not> ends_partial end_quote x) (pieces ws)
      \<longrightarrow> quote_free (unwrapped ws fin))"
proof
  from assms(2) have fin: "\<not> sublist begin_quote fin" "\<not> sublist end_quote fin"
    by (simp_all add: quote_free_def)
  show "remove_quote_blocks (quote_doc ws fin) = Inr (unwrapped ws fin, length ws)"
    by (rule remove_quote_blocks_doc) (rule clean_pieces_split(1)[OF assms(1)], rule fin(1))
  show "list_all (\<lambda>x. \<not> ends_partial begin_quote x \<and> \<not> ends_partial end_quote x) (pieces ws)
      \<longrightarrow> quote_free (unwrapped ws fin)"
  proof
    assume "list_all (\<lambda>x. \<not> ends_partial begin_quote x \<and> \<not> ends_partial end_quote x) (pieces ws)"
    then have b: "list_all (\<lambda>x. \<not> ends_partial begin_quote x) (pieces ws)"
      and e: "list_all (\<lambda>x. \<not> ends_partial end_quote x) (pieces ws)"
      by (simp_all add: list_all_iff)
    from unwrapped_free[OF clean_pieces_split(2)[OF assms(1)] fin(1) b]
      unwrapped_free[OF clean_pieces_split(3)[OF assms(1)] fin(2) e]
    show "quote_free (unwrapped ws fin)" by (simp add: quote_free_def)
  qed
qed

theorem remove_quote_blocks_count_witness:
  "remove_quote_blocks
     (asc ''a '' @ begin_quote @ asc '' b c  '' @ end_quote @ asc '' d'' @ begin_quote @ asc ''e'' @ end_quote @ asc ''f'')
     = Inr (asc ''a b c de'' @ asc ''f'', 2)
   \<and> quote_free (asc ''a b c de'' @ asc ''f'')"
proof -
  let ?ws = "[(asc ''a '', asc '' b c  ''), (asc '' d'', asc ''e'')]"
  have 1: "list_all (\<lambda>(t, c). quote_free t \<and> quote_free c) ?ws"
    by (simp add: text_defs)
  have 2: "quote_free (asc ''f'')"
    by (simp add: text_defs)
  have 3: "list_all (\<lambda>x. \<not> ends_partial begin_quote x \<and> \<not> ends_partial end_quote x) (pieces ?ws)"
    by (simp add: text_defs)
  have 4: "unwrapped ?ws (asc ''f'') = asc ''a b c de'' @ asc ''f''"
    by (simp add: text_defs)
  from remove_quote_blocks_count[OF 1 2] 3 show ?thesis
    unfolding 4 by simp
qed

theorem remove_quote_blocks_count_counterexample:
  "quote_free (BSL # asc ''begin{qu'') \<and> quote_free (asc ''ote}'')
   \<and> remove_quote_blocks (BSL # asc ''begin{qu'' @ begin_quote @ asc ''ote}'' @ end_quote)
       = Inr (begin_quote, 1)
   \<and> sublist begin_quote begin_quote"
  by (simp add: run_defs text_defs)

text \<open>
  C6. A document with two long tables, texts without begin marker of a long table around
  them, of which exactly one body has a minipage wrapper: the count is 1, the table with
  the wrapper is written with the body that \<open>_strip_minipages\<close> returns, which is not the
  body it had, and with its column specification; the other table and the texts around
  are as they were. For one wrapper in a body, the new body is the old one with the wrapper
  replaced by its content without the whitespace around it. For every document, the count
  is the number of matched tables whose body has a minipage wrapper, and the replacer adds
  1 for a table if and only if the body it writes is not the body it matched.
\<close>

theorem simplify_longtables_selective:
  assumes "\<not> sublist begin_longtable t0" and "\<not> sublist begin_longtable t1"
    and "\<not> sublist begin_longtable t2"
    and "RBRACE \<notin> set cols1" and "RBRACE \<notin> set cols2"
    and "\<not> sublist end_longtable body1" and "\<not> sublist end_longtable body2"
    and "re_search MINIPAGE_PATTERN body1 \<noteq> re_search MINIPAGE_PATTERN body2"
  shows "(\<exists>b1 b2. strip_minipages body1 = Inr b1 \<and> strip_minipages body2 = Inr b2
      \<and> simplify_longtables (t0 @ lt_env cols1 body1 @ t1 @ lt_env cols2 body2 @ t2)
          = Inr (t0 @ lt_env cols1 b1 @ t1 @ lt_env cols2 b2 @ t2, 1)
      \<and> (if re_search MINIPAGE_PATTERN body1 then b1 \<noteq> body1 \<and> b2 = body2
          else b1 = body1 \<and> b2 \<noteq> body2))
    \<and> (\<not> sublist begin_minipage u \<and> RBRACKET \<notin> set pos \<and> RBRACE \<notin> set width
        \<and> \<not> sublist end_minipage c \<and> \<not> sublist begin_minipage v
        \<longrightarrow> strip_minipages (u @ mp_env pos width c @ v) = Inr (u @ strip c @ v))
    \<and> (\<exists>out. simplify_longtables s
          = Inr (out, length (filter has_minipage (seg_matches (re_scan LONGTABLE_PATTERN s)))))
    \<and> (re_exec LONGTABLE_PATTERN t = Some m \<longrightarrow>
         (\<exists>cols body b. named m = [(''cols'', cols), (''body'', body)]
            \<and> strip_minipages body = Inr b
            \<and> longtable_replacer m n = Inr (lt_env cols b, if b \<noteq> body then n + 1 else n)
            \<and> (b \<noteq> body) = re_search MINIPAGE_PATTERN body
            \<and> has_minipage m = re_search MINIPAGE_PATTERN body))"
proof (intro conjI)
  from strip_minipages_total obtain b1 where b1: "strip_minipages body1 = Inr b1" by blast
  from strip_minipages_total obtain b2 where b2: "strip_minipages body2 = Inr b2" by blast
  from assms(8) have one: "(if re_search MINIPAGE_PATTERN body1 then 1 else 0)
       + (if re_search MINIPAGE_PATTERN body2 then 1 else 0) = (1::nat)" by auto
  have "simplify_longtables (t0 @ lt_env cols1 body1 @ t1 @ lt_env cols2 body2 @ t2)
          = Inr (t0 @ lt_env cols1 b1 @ t1 @ lt_env cols2 b2 @ t2, 1)"
    using simplify_two_longtables[OF assms(1-7) b1 b2] unfolding one .
  moreover have "if re_search MINIPAGE_PATTERN body1 then b1 \<noteq> body1 \<and> b2 = body2
          else b1 = body1 \<and> b2 \<noteq> body2"
    using strip_minipages_changed[OF b1] strip_minipages_changed[OF b2] assms(8) by auto
  ultimately show "\<exists>b1 b2. strip_minipages body1 = Inr b1 \<and> strip_minipages body2 = Inr b2
      \<and> simplify_longtables (t0 @ lt_env cols1 body1 @ t1 @ lt_env cols2 body2 @ t2)
          = Inr (t0 @ lt_env cols1 b1 @ t1 @ lt_env cols2 b2 @ t2, 1)
      \<and> (if re_search MINIPAGE_PATTERN body1 then b1 \<noteq> body1 \<and> b2 = body2
          else b1 = body1 \<and> b2 \<noteq> body2)"
    using b1 b2 by blast
next
  show "\<not> sublist begin_minipage u \<and> RBRACKET \<notin> set pos \<and> RBRACE \<notin> set width
        \<and> \<not> sublist end_minipage c \<and> \<not> sublist begin_minipage v
        \<longrightarrow> strip_minipages (u @ mp_env pos width c @ v) = Inr (u @ strip c @ v)"
    using strip_minipages_one[of u pos width c v] by blast
next
  show "\<exists>out. simplify_longtables s
          = Inr (out, length (filter has_minipage (seg_matches (re_scan LONGTABLE_PATTERN s))))"
    using simplify_longtables_count[of s] by blast
next
  show "re_exec LONGTABLE_PATTERN t = Some m \<longrightarrow>
         (\<exists>cols body b. named m = [(''cols'', cols), (''body'', body)]
            \<and> strip_minipages body = Inr b
            \<and> longtable_replacer m n = Inr (lt_env cols b, if b \<noteq> body then n + 1 else n)
            \<and> (b \<noteq> body) = re_search MINIPAGE_PATTERN body
            \<and> has_minipage m = re_search MINIPAGE_PATTERN body)"
  proof
    assume "re_exec LONGTABLE_PATTERN t = Some m"
    from re_exec_longtable_shape[OF this] obtain cols body where
      m: "m = \<lparr>matched = begin_longtable @ cols @ [RBRACE] @ body @ end_longtable,
        named = [(''cols'', cols), (''body'', body)]\<rparr>" by blast
    from strip_minipages_total obtain b where b: "strip_minipages body = Inr b" by blast
    have "named m = [(''cols'', cols), (''body'', body)]" by (simp add: m)
    moreover have "longtable_replacer m n = Inr (lt_env cols b, if b \<noteq> body then n + 1 else n)"
      using longtable_replacer_shape[OF b, of _ cols n] strip_minipages_changed[OF b]
      by (simp add: m lt_env_def)
    moreover have "has_minipage m = re_search MINIPAGE_PATTERN body"
      by (simp add: m has_minipage_def)
    ultimately show "\<exists>cols body b. named m = [(''cols'', cols), (''body'', body)]
            \<and> strip_minipages body = Inr b
            \<and> longtable_replacer m n = Inr (lt_env cols b, if b \<noteq> body then n + 1 else n)
            \<and> (b \<noteq> body) = re_search MINIPAGE_PATTERN body
            \<and> has_minipage m = re_search MINIPAGE_PATTERN body"
      using b strip_minipages_changed[OF b] by blast
  qed
qed

theorem simplify_longtables_selective_witness:
  "simplify_longtables
     (asc ''A'' @ lt_env (asc ''ll'') (asc ''x '' @ mp_env (asc ''t'') (asc ''3cm'') (asc '' cell '') @ asc '' y'')
      @ asc ''B'' @ lt_env (asc ''c'') (asc ''plain'') @ asc ''C'')
   = Inr (asc ''A'' @ lt_env (asc ''ll'') (asc ''x cell y'')
      @ asc ''B'' @ lt_env (asc ''c'') (asc ''plain'') @ asc ''C'', 1)"
proof -
  let ?body1 = "asc ''x '' @ mp_env (asc ''t'') (asc ''3cm'') (asc '' cell '') @ asc '' y''"
  let ?body2 = "asc ''plain''"
  have t: "\<not> sublist begin_longtable (asc ''A'')" "\<not> sublist begin_longtable (asc ''B'')"
    "\<not> sublist begin_longtable (asc ''C'')"
    by (simp_all add: text_defs)
  have cols: "RBRACE \<notin> set (asc ''ll'')" "RBRACE \<notin> set (asc ''c'')"
    by (simp_all add: text_defs)
  have body: "\<not> sublist end_longtable ?body1" "\<not> sublist end_longtable ?body2"
    by (simp_all add: text_defs mp_env_def)
  have s1: "strip_minipages ?body1 = Inr (asc ''x cell y'')"
    by (simp add: run_defs mp_env_def)
  have s2: "strip_minipages ?body2 = Inr ?body2"
    by (simp add: run_defs)
  have ne: "asc ''x cell y'' \<noteq> ?body1"
    by (simp add: asc_def mp_env_def begin_minipage_def)
  have m1: "re_search MINIPAGE_PATTERN ?body1"
    using strip_minipages_changed[OF s1] ne by blast
  have m2: "\<not> re_search MINIPAGE_PATTERN ?body2"
    using strip_minipages_changed[OF s2] by blast
  from m1 m2 have m: "re_search MINIPAGE_PATTERN ?body1 \<noteq> re_search MINIPAGE_PATTERN ?body2"
    by blast
  from simplify_longtables_selective[OF t cols body m] s1 s2 show ?thesis
    by auto
qed

text \<open>
  C7. Each of the four passes returns a document and a count for every input: no call of
  \<open>match.group\<close> fails and every scan ends. A pass whose pattern matches nowhere, as in a
  document with a begin marker and no end marker after it, returns the document unchanged
  with the count 0; so does the pass over the symbols on a document without any key of the
  table, and the pass over the long tables on a document without complete minipage
  wrapper.
\<close>

theorem passes_total:
  "(\<exists>d n. remove_quote_blocks s = Inr (d, n))
   \<and> (\<exists>d n. normalize_unicode_math s = Inr (d, n))
   \<and> (\<exists>d n. simplify_longtables s = Inr (d, n))
   \<and> (\<exists>d n. normalize_bibliography_items s = Inr (d, n))
   \<and> (\<not> re_search QUOTE_BLOCK_PATTERN s \<longrightarrow> remove_quote_blocks s = Inr (s, 0))
   \<and> (\<not> list_ex unicode_key s \<longrightarrow> normalize_unicode_math s = Inr (s, 0))
   \<and> (\<not> re_search LONGTABLE_PATTERN s \<longrightarrow> simplify_longtables s = Inr (s, 0))
   \<and> (\<not> re_search MINIPAGE_PATTERN s \<longrightarrow> simplify_longtables s = Inr (s, 0))
   \<and> (\<not> re_search BIBITEM_QUOTE_PATTERN s \<longrightarrow> normalize_bibliography_items s = Inr (s, 0))
   \<and> (\<not> sublist end_quote s \<longrightarrow>
        remove_quote_blocks s = Inr (s, 0) \<and> normalize_bibliography_items s = Inr (s, 0))
   \<and> (\<not> sublist end_longtable s \<longrightarrow> simplify_longtables s = Inr (s, 0))
   \<and> (\<not> sublist end_minipage s \<longrightarrow> simplify_longtables s = Inr (s, 0))"
proof -
  have q: "\<not> sublist end_quote s \<Longrightarrow> \<not> re_search QUOTE_BLOCK_PATTERN s"
    by (rule no_Lit_no_search[where l = end_quote]) (simp_all add: QUOTE_BLOCK_PATTERN_def)
  have b: "\<not> sublist end_quote s \<Longrightarrow> \<not> re_search BIBITEM_QUOTE_PATTERN s"
    by (rule no_Lit_no_search[where l = end_quote]) (simp_all add: BIBITEM_QUOTE_PATTERN_def)
  have l: "\<not> sublist end_longtable s \<Longrightarrow> \<not> re_search LONGTABLE_PATTERN s"
    by (rule no_Lit_no_search[where l = end_longtable]) (simp_all add: LONGTABLE_PATTERN_def)
  have m: "\<not> sublist end_minipage s \<Longrightarrow> \<not> re_search MINIPAGE_PATTERN s"
    by (rule no_Lit_no_search[where l = end_minipage]) (simp_all add: MINIPAGE_PATTERN_def)
  have u: "\<exists>d n. normalize_unicode_math s = Inr (d, n)"
    using normalize_unicode_math_subst by blast
  have rq: "\<not> re_search QUOTE_BLOCK_PATTERN s \<Longrightarrow> remove_quote_blocks s = Inr (s, 0)"
    by (simp add: remove_quote_blocks_def re_subn_no_match)
  have nb: "\<not> re_search BIBITEM_QUOTE_PATTERN s \<Longrightarrow> normalize_bibliography_items s = Inr (s, 0)"
    by (simp add: normalize_bibliography_items_def re_subn_no_match)
  show ?thesis
    using remove_quote_blocks_total[of s] u simplify_longtables_total[of s]
      normalize_bibliography_items_total[of s] rq nb normalize_unicode_math_no_key[of s]
      simplify_longtables_no_match[of s] simplify_longtables_no_minipage[of s] q b l m
    by blast
qed

theorem passes_total_witness:
  "remove_quote_blocks (item_marker @ begin_quote @ asc ''a'' @ begin_longtable @ asc ''c}b'' @ begin_minipage @ asc ''t]{x}c'')
     = Inr (item_marker @ begin_quote @ asc ''a'' @ begin_longtable @ asc ''c}b'' @ begin_minipage @ asc ''t]{x}c'', 0)
   \<and> normalize_unicode_math (item_marker @ begin_quote @ asc ''a'' @ begin_longtable @ asc ''c}b'' @ begin_minipage @ asc ''t]{x}c'')
     = Inr (item_marker @ begin_quote @ asc ''a'' @ begin_longtable @ asc ''c}b'' @ begin_minipage @ asc ''t]{x}c'', 0)
   \<and> simplify_longtables (item_marker @ begin_quote @ asc ''a'' @ begin_longtable @ asc ''c}b'' @ begin_minipage @ asc ''t]{x}c'')
     = Inr (item_marker @ begin_quote @ asc ''a'' @ begin_longtable @ asc ''c}b'' @ begin_minipage @ asc ''t]{x}c'', 0)
   \<and> normalize_bibliography_items (item_marker @ begin_quote @ asc ''a'' @ begin_longtable @ asc ''c}b'' @ begin_minipage @ asc ''t]{x}c'')
     = Inr (item_marker @ begin_quote @ asc ''a'' @ begin_longtable @ asc ''c}b'' @ begin_minipage @ asc ''t]{x}c'', 0)"
proof -
  let ?s = "item_marker @ begin_quote @ asc ''a'' @ begin_longtable @ asc ''c}b'' @ begin_minipage @ asc ''t]{x}c''"
  have 1: "\<not> sublist end_quote ?s" by (simp add: text_defs)
  have 2: "\<not> list_ex unicode_key ?s" by (simp add: text_defs unicode_key_cases)
  have 3: "\<not> sublist end_longtable ?s" by (simp add: text_defs)
  from passes_total[of ?s] 1 2 3 show ?thesis by blast
qed

text \<open>
  C8. \<open>cleanup_latex\<close> returns, for every input, the document obtained by running the four
  passes in the order quote removal, symbols, long tables, bibliography items, each on the
  document of the pass before, and the report of the four counts. It is a function of its
  input, it has no effect, and it never fails.
\<close>

theorem cleanup_latex_threads:
  "\<exists>d1 n1 d2 n2 d3 n3 d4 n4.
     remove_quote_blocks s = Inr (d1, n1)
     \<and> normalize_unicode_math d1 = Inr (d2, n2)
     \<and> simplify_longtables d2 = Inr (d3, n3)
     \<and> normalize_bibliography_items d3 = Inr (d4, n4)
     \<and> cleanup_latex s =
         Inr (d4, \<lparr>removed_quote_blocks = n1, unicode_replacements = n2,
                   simplified_longtables = n3, normalized_bibliography_items = n4\<rparr>)"
proof -
  from remove_quote_blocks_total obtain d1 n1 where 1: "remove_quote_blocks s = Inr (d1, n1)"
    by blast
  obtain d2 n2 where 2: "normalize_unicode_math d1 = Inr (d2, n2)"
    using normalize_unicode_math_subst by blast
  from simplify_longtables_total obtain d3 n3 where 3: "simplify_longtables d2 = Inr (d3, n3)"
    by blast
  from normalize_bibliography_items_total obtain d4 n4 where
    4: "normalize_bibliography_items d3 = Inr (d4, n4)" by blast
  from 1 2 3 4 have "cleanup_latex s =
         Inr (d4, \<lparr>removed_quote_blocks = n1, unicode_replacements = n2,
                   simplified_longtables = n3, normalized_bibliography_items = n4\<rparr>)"
    by (simp add: cleanup_latex_def)
  with 1 2 3 4 show ?thesis by blast
qed

text \<open>
  C9. \<open>normalize_unicode_math\<close> is the substitution of the keys, character by character,
  and its count is the number of characters of the input that are keys. Every value of the
  table starts with two backslashes; the first key is the code point U+01AE and its value
  is the text of five characters \<open>\\tau\<close>.
\<close>

theorem normalize_unicode_math_homomorphism:
  "normalize_unicode_math s = Inr (concat (map unicode_subst s), length (filter unicode_key s))
   \<and> list_all (\<lambda>(k, r). take 2 r = [BSL, BSL]) UNICODE_MATH_REPLACEMENTS
   \<and> map fst UNICODE_MATH_REPLACEMENTS = [0x1AE, 0x1D4B5, 0x2124, 0x211D, 0x211A, 0x2115]
   \<and> unicode_subst 0x1AE = BSL # BSL # asc ''tau''
   \<and> length (unicode_subst 0x1AE) = 5"
  by (simp add: normalize_unicode_math_subst)
    (simp add: UNICODE_MATH_REPLACEMENTS_def unicode_subst_def asc_def)

text \<open>
  C10. A pass that returns the count 0 returns its input. The pass over the long tables
  writes a table whose body has no minipage wrapper back as it matched it: begin marker,
  column specification, body and end marker.
\<close>

theorem count_zero_unchanged:
  "(remove_quote_blocks s = Inr (d, 0) \<longrightarrow> d = s)
   \<and> (normalize_unicode_math s = Inr (d, 0) \<longrightarrow> d = s)
   \<and> (simplify_longtables s = Inr (d, 0) \<longrightarrow> d = s)
   \<and> (normalize_bibliography_items s = Inr (d, 0) \<longrightarrow> d = s)
   \<and> (re_exec LONGTABLE_PATTERN t = Some m \<and> \<not> has_minipage m
        \<longrightarrow> longtable_replacer m n = Inr (matched m, n))"
proof -
  have "longtable_replacer m n = Inr (matched m, n)"
    if "re_exec LONGTABLE_PATTERN t = Some m" "\<not> has_minipage m"
    using longtable_replacer_match[OF that(1), of n] that(2) by auto
  then show ?thesis
    using re_subn_zero[of QUOTE_BLOCK_PATTERN quote_replacer s d]
      re_subn_zero[of BIBITEM_QUOTE_PATTERN bibitem_replacer s d]
      normalize_unicode_math_zero[of s d] simplify_longtables_zero[of s d]
    by (auto simp: remove_quote_blocks_def normalize_bibliography_items_def)
qed

theorem count_zero_unchanged_witness:
  "simplify_longtables (begin_longtable @ asc ''ll}a & b'' @ end_longtable)
     = Inr (BSL # asc ''begin{longtable}{ll}a & b'' @ BSL # asc ''end{longtable}'', 0)
   \<and> BSL # asc ''begin{longtable}{ll}a & b'' @ BSL # asc ''end{longtable}''
     = begin_longtable @ asc ''ll}a & b'' @ end_longtable
   \<and> remove_quote_blocks (asc ''no wrapper'') = Inr (asc ''no wrapper'', 0)
   \<and> normalize_unicode_math (asc ''no symbol'') = Inr (asc ''no symbol'', 0)
   \<and> normalize_bibliography_items (item_marker @ asc '' entry'') = Inr (item_marker @ asc '' entry'', 0)
   \<and> longtable_replacer
        \<lparr>matched = begin_longtable @ asc ''ll}a & b'' @ end_longtable,
         named = [(''cols'', asc ''ll''), (''body'', asc ''a & b'')]\<rparr> 0
     = Inr (begin_longtable @ asc ''ll}a & b'' @ end_longtable, 0)"
proof -
  let ?s = "begin_longtable @ asc ''ll}a & b'' @ end_longtable"
  let ?d = "BSL # asc ''begin{longtable}{ll}a & b'' @ BSL # asc ''end{longtable}''"
  let ?m = "\<lparr>matched = ?s, named = [(''cols'', asc ''ll''), (''body'', asc ''a & b'')]\<rparr>"
  have 1: "simplify_longtables ?s = Inr (?d, 0)" by (simp add: run_defs)
  have 2: "remove_quote_blocks (asc ''no wrapper'') = Inr (asc ''no wrapper'', 0)"
    by (simp add: run_defs)
  have 3: "normalize_unicode_math (asc ''no symbol'') = Inr (asc ''no symbol'', 0)"
    by (simp add: run_defs)
  have 4: "normalize_bibliography_items (item_marker @ asc '' entry'') = Inr (item_marker @ asc '' entry'', 0)"
    by (simp add: run_defs)
  have 5: "re_exec LONGTABLE_PATTERN ?s = Some ?m" by (simp add: run_defs)
  have 6: "\<not> has_minipage ?m" by (simp add: has_minipage_def run_defs)
  from count_zero_unchanged[of ?s ?d ?s ?m 0] 1 5 6
  have "?d = ?s" "longtable_replacer ?m 0 = Inr (matched ?m, 0)" by blast+
  with 1 2 3 4 show ?thesis by simp
qed

end
